theory Spec2Isabelle
  imports
    Main
    "HOL-Library.Multiset"
    "HOL-Library.Char_ord"
    "HOL-Library.List_Lexorder"
    "HOL-Library.Product_Lexorder"
begin

section \<open>seekaur: data model\<close>

text \<open>
  A Go \<open>string\<close> is a sequence of bytes: it is modelled as \<open>string\<close> (a list of 8-bit
  characters).  With \<open>Char_ord\<close> and \<open>List_Lexorder\<close> the order \<open><\<close> on \<open>string\<close> is the
  lexicographic order by byte value, a proper prefix being smaller, which is what Go's
  \<open><\<close> on strings computes.

  Go's \<open>int\<close> is read as a mathematical integer wherever the program only compares it or
  uses it as an index; its width is written out where a value is parsed (\<open>Atoi\<close>).
\<close>

text \<open>\<open>time.Time\<close> as built by \<open>time.Unix(sec, nsec)\<close>: seconds and nanoseconds since
  1970-01-01T00:00:00Z.\<close>

record Time =
  unixSec :: int
  unixNsec :: int

text \<open>\<open>type timeUnmarshaler struct{ time.Time }\<close>\<close>

type_synonym timeUnmarshaler = Time

record Package =
  Maintainer :: string
  ID :: int
  Name :: string
  Version :: string
  CategoryID :: int
  Description :: string
  URL :: string
  License :: string
  NumVotes :: int
  OutOfDate :: int
  FirstSubmitted :: timeUnmarshaler
  LastModified :: timeUnmarshaler
  URLPath :: string

type_synonym PackageList = "Package list"

record Response =
  Type :: string
  Count :: int
  Results :: "Package list"

text \<open>
  Error values (\<open>error\<close> in Go).  \<open>ErrSyntax\<close> and \<open>ErrRange\<close> are the two errors of
  \<open>strconv\<close>; \<open>SomePackagesNotFound\<close> is \<open>fmt.Errorf("Some packages were not found")\<close>;
  \<open>OtherError\<close> stands for the errors of the network and of the JSON decoder, and for
  whatever error a callback returns.
\<close>

datatype error = ErrSyntax | ErrRange | SomePackagesNotFound | OtherError string

text \<open>
  A Go function fails in two ways: it returns a non-nil \<open>error\<close>, or it panics.  The
  run-time panics of this program are an index out of range and slice bounds out of
  range; \<open>search\<close> also panics with the error of its request.
\<close>

datatype failure = Error error | IndexOutOfRange | SliceBoundsOutOfRange | PanicWith error

text \<open>How a command ends: it returns, it calls \<open>os.Exit\<close>, or a panic ends the process.\<close>

datatype outcome = Done | Exit int | Panicked failure

text \<open>The bytes used by the format strings.\<close>

definition ESC :: char where
  "ESC = CHR 0x1B"

definition NL :: char where
  "NL = CHR 0x0A"

definition QUOTE :: char where
  "QUOTE = CHR 0x27"

section \<open>The RPC client\<close>

text \<open>
  \<open>aurRequest\<close> parses the request, performs the GET against the fixed origin and decodes
  the JSON body.  The network is outside the program: \<open>rpc\<close> gives, for each request
  string, the envelope decoded from the answer or the error of the transport or of the
  decoder.
\<close>

type_synonym transport = "string \<Rightarrow> error + Response"

definition aurRequest :: "transport \<Rightarrow> string \<Rightarrow> error + Response" where
  "aurRequest rpc request = rpc request"

section \<open>The multi-lookup\<close>

text \<open>
  What \<open>multiInfo\<close> does that can be observed, in order: an invocation of the callback
  on a record, or a line written by \<open>fmt.Printf\<close>.
\<close>

datatype event = Callback Package | Printf string

text \<open>The callback \<open>f func(Package) error\<close>: \<open>None\<close> is \<open>nil\<close>, \<open>Some (Error e)\<close> a returned
  error, any other failure a panic inside the callback.\<close>

type_synonym callback = "Package \<Rightarrow> failure option"

text \<open>The request string (lines 100 to 104); \<open>url.QueryEscape\<close> is the library's and is a
  parameter.\<close>

definition multiInfo_request :: "(string \<Rightarrow> string) \<Rightarrow> string list \<Rightarrow> string" where
  "multiInfo_request QueryEscape args =
     foldl (\<lambda>request str. request @ ''&arg[]='' @ QueryEscape str)
       ''/rpc.php?type=multiinfo'' args"

text \<open>
  The inner loop (lines 116 to 125) for one argument: the first record with that name is
  handed to the callback and the loop is left; the result is what happened, an early
  return if the callback failed, and the flag \<open>found\<close>.
\<close>

fun scan :: "callback \<Rightarrow> string \<Rightarrow> Package list \<Rightarrow> event list \<times> failure option \<times> bool" where
  "scan f a [] = ([], None, False)"
| "scan f a (pkg # rest) =
     (if Name pkg = a then
        (case f pkg of
           Some err \<Rightarrow> ([Callback pkg], Some err, False)
         | None \<Rightarrow> ([Callback pkg], None, True))
      else scan f a rest)"

definition not_found_line :: "string \<Rightarrow> string" where
  "not_found_line a =
     ESC # ''[1;31merror:'' @ ESC # ''[0m package '' @ QUOTE # a @ QUOTE # '' was not found'' @ [NL]"

text \<open>The outer loop (lines 114 to 129) over the arguments, in their order.\<close>

fun reconcile :: "callback \<Rightarrow> Package list \<Rightarrow> string list \<Rightarrow> event list \<times> failure option" where
  "reconcile f results [] = ([], None)"
| "reconcile f results (a # args) =
     (case scan f a results of
        (ev, Some err, found) \<Rightarrow> (ev, Some err)
      | (ev, None, found) \<Rightarrow>
          (let ev' = (if \<not> found then ev @ [Printf (not_found_line a)] else ev);
               (ev'', r) = reconcile f results args
           in (ev' @ ev'', r)))"

definition multiInfo ::
  "(string \<Rightarrow> string) \<Rightarrow> transport \<Rightarrow> string list \<Rightarrow> callback \<Rightarrow> event list \<times> failure option" where
  "multiInfo QueryEscape rpc args f =
     (case aurRequest rpc (multiInfo_request QueryEscape args) of
        Inl err \<Rightarrow> ([], Some (Error err))
      | Inr results \<Rightarrow>
          (case reconcile f (Results results) args of
             (ev, Some err) \<Rightarrow> (ev, Some err)
           | (ev, None) \<Rightarrow>
               if length (Results results) < length args
               then (ev, Some (Error SomePackagesNotFound))
               else (ev, None)))"

section \<open>The search-result order\<close>

text \<open>Go's \<open>p[i]\<close>: the element, or the panic of an index outside \<open>0 \<le> i < len(p)\<close>.\<close>

definition go_index :: "'a list \<Rightarrow> int \<Rightarrow> failure + 'a" where
  "go_index xs i =
     (if 0 \<le> i \<and> i < int (length xs) then Inr (xs ! nat i) else Inl IndexOutOfRange)"

text \<open>The comparison that \<open>Less\<close> makes between the two records it has read.\<close>

definition less_pkg :: "Package \<Rightarrow> Package \<Rightarrow> bool" where
  "less_pkg a b =
     (if CategoryID a < CategoryID b then True
      else if CategoryID a = CategoryID b \<and> Name a < Name b then True
      else False)"

definition Len :: "PackageList \<Rightarrow> int" where
  "Len p = int (length p)"

definition Swap :: "PackageList \<Rightarrow> int \<Rightarrow> int \<Rightarrow> failure + PackageList" where
  "Swap p i j =
     (case (go_index p i, go_index p j) of
        (Inr a, Inr b) \<Rightarrow> Inr (p[nat i := b, nat j := a])
      | _ \<Rightarrow> Inl IndexOutOfRange)"

definition Less :: "PackageList \<Rightarrow> int \<Rightarrow> int \<Rightarrow> failure + bool" where
  "Less p i j =
     (case (go_index p i, go_index p j) of
        (Inr a, Inr b) \<Rightarrow> Inr (less_pkg a b)
      | _ \<Rightarrow> Inl IndexOutOfRange)"

text \<open>
  \<open>sort.Sort\<close> is the Go library's, not this program's: the program supplies \<open>Len\<close>,
  \<open>Swap\<close> and \<open>Less\<close>.  The library promises that \<open>sort.Sort\<close> rearranges the slice, by
  calls of \<open>Swap\<close>, so that \<open>sort.IsSorted\<close> holds afterwards, and says that the sort is
  not guaranteed to be stable; which of the sorted arrangements comes out is left to
  the release of the library.  \<open>IsSorted\<close> is the library's check (no element is \<open>Less\<close>
  than the one before it), and \<open>sort_Sort p q\<close> says that \<open>q\<close> is a result that
  \<open>sort.Sort\<close> may leave in the slice that held \<open>p\<close>.
\<close>

definition IsSorted :: "PackageList \<Rightarrow> bool" where
  "IsSorted p = list_all (\<lambda>i. Less p (int i) (int i - 1) = Inr False) [1..<length p]"

definition sort_Sort :: "PackageList \<Rightarrow> PackageList \<Rightarrow> bool" where
  "sort_Sort p q = (mset q = mset p \<and> IsSorted q)"

text \<open>The pair that the comparison looks at.\<close>

definition category_name :: "Package \<Rightarrow> int \<times> string" where
  "category_name p = (CategoryID p, Name p)"

section \<open>The library's sorting algorithm\<close>

text \<open>
  What \<open>sort.Sort\<close> does with the three methods, in the Go library from release 1.19 on
  (a pattern-defeating quicksort; file \<open>sort/zsortinterface.go\<close>).  The library is not
  part of the repository; its procedures are written out here one by one, with the
  slice passed along and returned.  The indices are natural numbers: the library calls
  \<open>Less\<close> and \<open>Swap\<close> with indices inside the slice only, where they are \<open>less_at\<close> and
  \<open>swap_at\<close> (lemmas \<open>Less_at\<close> and \<open>Swap_at\<close> below).  Which of the sorted arrangements
  comes out, and with it the order of the records that share category and name, is
  settled by these procedures; \<open>sort_Sort\<close> above leaves it open.
\<close>

definition less_at :: "PackageList \<Rightarrow> nat \<Rightarrow> nat \<Rightarrow> bool" where
  "less_at data i j = less_pkg (data ! i) (data ! j)"

definition swap_at :: "PackageList \<Rightarrow> nat \<Rightarrow> nat \<Rightarrow> PackageList" where
  "swap_at data i j = data[i := data ! j, j := data ! i]"

text \<open>
  \<open>insertionSort(data, a, b)\<close>: for \<open>i\<close> from \<open>a + 1\<close> to \<open>b - 1\<close>, the element at \<open>i\<close> is
  exchanged with the one before it while \<open>j > a && data.Less(j, j-1)\<close>.
\<close>

fun insert_down :: "PackageList \<Rightarrow> nat \<Rightarrow> nat \<Rightarrow> PackageList" where
  "insert_down data a 0 = data"
| "insert_down data a (Suc j) =
     (if Suc j > a \<and> less_at data (Suc j) j
      then insert_down (swap_at data (Suc j) j) a j
      else data)"

definition insertionSort :: "PackageList \<Rightarrow> nat \<Rightarrow> nat \<Rightarrow> PackageList" where
  "insertionSort data a b = foldl (\<lambda>d i. insert_down d a i) data [a + 1..<b]"

text \<open>\<open>siftDown(data, lo, hi, first)\<close> and \<open>heapSort(data, a, b)\<close>.\<close>

function siftDown_from :: "PackageList \<Rightarrow> nat \<Rightarrow> nat \<Rightarrow> nat \<Rightarrow> PackageList" where
  "siftDown_from data hi first root =
     (let child = 2 * root + 1 in
      if child \<ge> hi then data
      else
        (let child' =
               (if child + 1 < hi \<and> less_at data (first + child) (first + child + 1)
                then child + 1 else child)
         in if \<not> less_at data (first + root) (first + child') then data
            else siftDown_from (swap_at data (first + root) (first + child')) hi first child'))"
  by pat_completeness auto
termination
  by (relation "measure (\<lambda>(data, hi, first, root). hi - root)") auto

declare siftDown_from.simps [simp del]

definition siftDown :: "PackageList \<Rightarrow> nat \<Rightarrow> nat \<Rightarrow> nat \<Rightarrow> PackageList" where
  "siftDown data lo hi first = siftDown_from data hi first lo"

definition heapSort :: "PackageList \<Rightarrow> nat \<Rightarrow> nat \<Rightarrow> PackageList" where
  "heapSort data a b =
     (let first = a; lo = 0; hi = b - a;
          heap = foldl (\<lambda>d i. siftDown d i hi first) data (rev [0..<(hi - 1) div 2 + 1])
      in foldl (\<lambda>d i. siftDown (swap_at d first (first + i)) lo i first) heap (rev [0..<hi]))"

text \<open>
  The two scans of the partitions: \<open>for i <= j && c(i) { i++ }\<close> and
  \<open>for i <= j && c(j) { j-- }\<close>.  In the partitions \<open>i\<close> is at least \<open>a + 1\<close>, so that \<open>j\<close>
  is not counted down below 0.
\<close>

function scan_up :: "(nat \<Rightarrow> bool) \<Rightarrow> nat \<Rightarrow> nat \<Rightarrow> nat" where
  "scan_up c i j = (if i \<le> j \<and> c i then scan_up c (i + 1) j else i)"
  by pat_completeness auto
termination
  by (relation "measure (\<lambda>(c, i, j). Suc j - i)") auto

declare scan_up.simps [simp del]

fun scan_down :: "(nat \<Rightarrow> bool) \<Rightarrow> nat \<Rightarrow> nat \<Rightarrow> nat" where
  "scan_down c i 0 = 0"
| "scan_down c i (Suc j) = (if i \<le> Suc j \<and> c (Suc j) then scan_down c i j else Suc j)"

text \<open>
  \<open>partition(data, a, b, pivot)\<close>, here \<open>partition_slice\<close>: the pivot goes to \<open>a\<close>, the elements smaller than it
  are gathered on the left, and it is put between the two parts.  The result is the
  slice, the new index of the pivot and whether the slice was partitioned already.
\<close>

function partition_loop :: "PackageList \<Rightarrow> nat \<Rightarrow> nat \<Rightarrow> nat \<Rightarrow> PackageList \<times> nat" where
  "partition_loop data a i j =
     (let i' = scan_up (\<lambda>i. less_at data i a) i j;
          j' = scan_down (\<lambda>j. \<not> less_at data j a) i' j
      in if i' > j' then (data, j')
         else partition_loop (swap_at data i' j') a (i' + 1) (j' - 1))"
  by pat_completeness auto
termination
proof (relation "measure (\<lambda>(data, a, i, j). Suc j - i)")
  show "wf (measure (\<lambda>(data, a, i, j). Suc j - i))" by simp
next
  fix data :: PackageList and a i j i' j' :: nat
  assume i': "i' = scan_up (\<lambda>i. less_at data i a) i j"
    and j': "j' = scan_down (\<lambda>j. \<not> less_at data j a) i' j"
    and le: "\<not> j' < i'"
  have up: "i \<le> scan_up c i j" for c
    by (induction c i j rule: scan_up.induct) (metis Suc_leD add.commute plus_1_eq_Suc order_refl scan_up.simps)
  have down: "scan_down c k j \<le> j" for c k
    by (induction c k j rule: scan_down.induct) (auto simp: le_SucI)
  from up [of "\<lambda>i. less_at data i a"] i' have "i \<le> i'" by simp
  moreover from down [of "\<lambda>j. \<not> less_at data j a" i'] j' have "j' \<le> j" by simp
  ultimately show "((swap_at data i' j', a, i' + 1, j' - 1), (data, a, i, j))
      \<in> measure (\<lambda>(data, a, i, j). Suc j - i)"
    using le by auto
qed

declare partition_loop.simps [simp del]

definition partition_slice :: "PackageList \<Rightarrow> nat \<Rightarrow> nat \<Rightarrow> nat \<Rightarrow> PackageList \<times> nat \<times> bool" where
  "partition_slice data a b pivot =
     (let d = swap_at data a pivot;
          i = scan_up (\<lambda>i. less_at d i a) (a + 1) (b - 1);
          j = scan_down (\<lambda>j. \<not> less_at d j a) i (b - 1)
      in if i > j then (swap_at d j a, j, True)
         else
           (let (d', j') = partition_loop (swap_at d i j) a (i + 1) (j - 1)
            in (swap_at d' j' a, j', False)))"

text \<open>
  \<open>partitionEqual(data, a, b, pivot)\<close>: the elements equal to the pivot are gathered on
  the left; the result is the slice and the index after them.
\<close>

function partitionEqual_loop :: "PackageList \<Rightarrow> nat \<Rightarrow> nat \<Rightarrow> nat \<Rightarrow> PackageList \<times> nat" where
  "partitionEqual_loop data a i j =
     (let i' = scan_up (\<lambda>i. \<not> less_at data a i) i j;
          j' = scan_down (\<lambda>j. less_at data a j) i' j
      in if i' > j' then (data, i')
         else partitionEqual_loop (swap_at data i' j') a (i' + 1) (j' - 1))"
  by pat_completeness auto
termination
proof (relation "measure (\<lambda>(data, a, i, j). Suc j - i)")
  show "wf (measure (\<lambda>(data, a, i, j). Suc j - i))" by simp
next
  fix data :: PackageList and a i j i' j' :: nat
  assume i': "i' = scan_up (\<lambda>i. \<not> less_at data a i) i j"
    and j': "j' = scan_down (\<lambda>j. less_at data a j) i' j"
    and le: "\<not> j' < i'"
  have up: "i \<le> scan_up c i j" for c
    by (induction c i j rule: scan_up.induct) (metis Suc_leD add.commute plus_1_eq_Suc order_refl scan_up.simps)
  have down: "scan_down c k j \<le> j" for c k
    by (induction c k j rule: scan_down.induct) (auto simp: le_SucI)
  from up [of "\<lambda>i. \<not> less_at data a i"] i' have "i \<le> i'" by simp
  moreover from down [of "\<lambda>j. less_at data a j" i'] j' have "j' \<le> j" by simp
  ultimately show "((swap_at data i' j', a, i' + 1, j' - 1), (data, a, i, j))
      \<in> measure (\<lambda>(data, a, i, j). Suc j - i)"
    using le by auto
qed

declare partitionEqual_loop.simps [simp del]

definition partitionEqual :: "PackageList \<Rightarrow> nat \<Rightarrow> nat \<Rightarrow> nat \<Rightarrow> PackageList \<times> nat" where
  "partitionEqual data a b pivot =
     partitionEqual_loop (swap_at data a pivot) a (a + 1) (b - 1)"

text \<open>
  \<open>partialInsertionSort(data, a, b)\<close>: at most five pairs out of order are put right, and
  none in a slice shorter than 50; the result is the slice and whether it is sorted.
\<close>

function scan_sorted :: "PackageList \<Rightarrow> nat \<Rightarrow> nat \<Rightarrow> nat" where
  "scan_sorted data b i =
     (if i < b \<and> \<not> less_at data i (i - 1) then scan_sorted data b (i + 1) else i)"
  by pat_completeness auto
termination
  by (relation "measure (\<lambda>(data, b, i). b - i)") auto

declare scan_sorted.simps [simp del]

fun shift_left :: "PackageList \<Rightarrow> nat \<Rightarrow> PackageList" where
  "shift_left data 0 = data"
| "shift_left data (Suc j) =
     (if \<not> less_at data (Suc j) j then data else shift_left (swap_at data (Suc j) j) j)"

function shift_right :: "PackageList \<Rightarrow> nat \<Rightarrow> nat \<Rightarrow> PackageList" where
  "shift_right data b j =
     (if j < b
      then (if \<not> less_at data j (j - 1) then data
            else shift_right (swap_at data j (j - 1)) b (j + 1))
      else data)"
  by pat_completeness auto
termination
  by (relation "measure (\<lambda>(data, b, j). b - j)") auto

declare shift_right.simps [simp del]

primrec partial_steps :: "nat \<Rightarrow> PackageList \<Rightarrow> nat \<Rightarrow> nat \<Rightarrow> nat \<Rightarrow> PackageList \<times> bool" where
  "partial_steps 0 data a b i = (data, False)"
| "partial_steps (Suc steps) data a b i =
     (let i' = scan_sorted data b i in
      if i' = b then (data, True)
      else if b - a < 50 then (data, False)
      else
        (let d1 = swap_at data i' (i' - 1);
             d2 = (if i' - a \<ge> 2 then shift_left d1 (i' - 1) else d1);
             d3 = (if b - i' \<ge> 2 then shift_right d2 b (i' + 1) else d2)
         in partial_steps steps d3 a b i'))"

definition partialInsertionSort :: "PackageList \<Rightarrow> nat \<Rightarrow> nat \<Rightarrow> PackageList \<times> bool" where
  "partialInsertionSort data a b = partial_steps 5 data a b (a + 1)"

text \<open>
  \<open>breakPatterns(data, a, b)\<close> exchanges three elements around the middle with elements
  picked by a pseudo-random sequence that starts from the length.  \<open>pick length n\<close>
  stands for the \<open>n\<close>-th offset picked for a slice of that length, a number below the
  length; nothing below depends on the picks.
\<close>

definition breakPatterns ::
  "(nat \<Rightarrow> nat \<Rightarrow> nat) \<Rightarrow> PackageList \<Rightarrow> nat \<Rightarrow> nat \<Rightarrow> PackageList" where
  "breakPatterns pick data a b =
     (let length = b - a in
      if length \<ge> 8 then
        (let idx = a + (length div 4) * 2 - 1
         in foldl (\<lambda>d n. swap_at d (idx - 1 + n) (a + pick length n)) data [0..<3])
      else data)"

text \<open>\<open>choosePivot(data, a, b)\<close>, with \<open>order2\<close>, \<open>median\<close> and \<open>medianAdjacent\<close>.\<close>

datatype sortedHint = unknownHint | increasingHint | decreasingHint

definition order2 :: "PackageList \<Rightarrow> nat \<Rightarrow> nat \<Rightarrow> nat \<Rightarrow> nat \<times> nat \<times> nat" where
  "order2 data a b swaps = (if less_at data b a then (b, a, swaps + 1) else (a, b, swaps))"

definition median :: "PackageList \<Rightarrow> nat \<Rightarrow> nat \<Rightarrow> nat \<Rightarrow> nat \<Rightarrow> nat \<times> nat" where
  "median data a b c swaps =
     (let (a1, b1, s1) = order2 data a b swaps;
          (b2, c2, s2) = order2 data b1 c s1;
          (a3, b3, s3) = order2 data a1 b2 s2
      in (b3, s3))"

definition medianAdjacent :: "PackageList \<Rightarrow> nat \<Rightarrow> nat \<Rightarrow> nat \<times> nat" where
  "medianAdjacent data a swaps = median data (a - 1) a (a + 1) swaps"

definition choosePivot :: "PackageList \<Rightarrow> nat \<Rightarrow> nat \<Rightarrow> nat \<times> sortedHint" where
  "choosePivot data a b =
     (let l = b - a;
          i = a + l div 4 * 1;
          j = a + l div 4 * 2;
          k = a + l div 4 * 3;
          (j', swaps) =
            (if l \<ge> 8 then
               (let (i1, j1, k1, s1) =
                      (if l \<ge> 50 then
                         (let (i', s) = medianAdjacent data i 0;
                              (j', s') = medianAdjacent data j s;
                              (k', s'') = medianAdjacent data k s'
                          in (i', j', k', s''))
                       else (i, j, k, 0))
                in median data i1 j1 k1 s1)
             else (j, 0))
      in if swaps = 0 then (j', increasingHint)
         else if swaps = 4 * 3 then (j', decreasingHint)
         else (j', unknownHint))"

text \<open>\<open>reverseRange(data, a, b)\<close>.\<close>

function reverse_from :: "PackageList \<Rightarrow> nat \<Rightarrow> nat \<Rightarrow> PackageList" where
  "reverse_from data i j =
     (if i < j then reverse_from (swap_at data i j) (i + 1) (j - 1) else data)"
  by pat_completeness auto
termination
  by (relation "measure (\<lambda>(data, i, j). j - i)") auto

declare reverse_from.simps [simp del]

definition reverseRange :: "PackageList \<Rightarrow> nat \<Rightarrow> nat \<Rightarrow> PackageList" where
  "reverseRange data a b = reverse_from data a (b - 1)"

text \<open>
  \<open>pdqsort(data, a, b, limit)\<close>.  One equation is one turn of its loop; the two flags
  \<open>wasBalanced\<close> and \<open>wasPartitioned\<close> of the loop are arguments, and both are true when
  the procedure is entered.  The first argument bounds the number of turns and calls:
  with none left the result is \<open>None\<close>.  (Lemma \<open>pdqsort_returns\<close> below: a bound above the
  length of the range is enough.)
\<close>

primrec pdqsort ::
  "nat \<Rightarrow> (nat \<Rightarrow> nat \<Rightarrow> nat) \<Rightarrow> PackageList \<Rightarrow> nat \<Rightarrow> nat \<Rightarrow> nat \<Rightarrow> bool \<Rightarrow> bool
     \<Rightarrow> PackageList option" where
  "pdqsort 0 pick data a b limit wasBalanced wasPartitioned = None"
| "pdqsort (Suc turns) pick data a b limit wasBalanced wasPartitioned =
     (let length = b - a in
      if length \<le> 12 then Some (insertionSort data a b)
      else if limit = 0 then Some (heapSort data a b)
      else
        (let (d1, limit') =
               (if \<not> wasBalanced then (breakPatterns pick data a b, limit - 1)
                else (data, limit));
             (pivot, hint) = choosePivot d1 a b;
             (d2, pivot', hint') =
               (if hint = decreasingHint
                then (reverseRange d1 a b, (b - 1) - (pivot - a), increasingHint)
                else (d1, pivot, hint));
             (d3, sorted) =
               (if wasBalanced \<and> wasPartitioned \<and> hint' = increasingHint
                then partialInsertionSort d2 a b
                else (d2, False))
         in if sorted then Some d3
            else if a > 0 \<and> \<not> less_at d3 (a - 1) pivot' then
              (let (d4, mid) = partitionEqual d3 a b pivot'
               in pdqsort turns pick d4 mid b limit' wasBalanced wasPartitioned)
            else
              (let (d4, mid, alreadyPartitioned) = partition_slice d3 a b pivot';
                   leftLen = mid - a;
                   rightLen = b - mid;
                   balanceThreshold = length div 8
               in if leftLen < rightLen then
                    (case pdqsort turns pick d4 a mid limit' True True of
                       None \<Rightarrow> None
                     | Some d5 \<Rightarrow>
                         pdqsort turns pick d5 (mid + 1) b limit'
                           (leftLen \<ge> balanceThreshold) alreadyPartitioned)
                  else
                    (case pdqsort turns pick d4 (mid + 1) b limit' True True of
                       None \<Rightarrow> None
                     | Some d5 \<Rightarrow>
                         pdqsort turns pick d5 a mid limit'
                           (rightLen \<ge> balanceThreshold) alreadyPartitioned))))"

text \<open>\<open>bits.Len\<close>, and \<open>sort.Sort(data)\<close> itself.\<close>

function bits_Len :: "nat \<Rightarrow> nat" where
  "bits_Len n = (if n = 0 then 0 else Suc (bits_Len (n div 2)))"
  by pat_completeness auto
termination
  by (relation "measure (\<lambda>n. n)") auto

declare bits_Len.simps [simp del]

definition Sort :: "(nat \<Rightarrow> nat \<Rightarrow> nat) \<Rightarrow> PackageList \<Rightarrow> PackageList option" where
  "Sort pick data =
     (let n = length data in
      if n \<le> 1 then Some data
      else pdqsort (Suc n) pick data 0 n (bits_Len n) True True)"

section \<open>The timestamp decoder\<close>

text \<open>
  \<open>strconv.Atoi(s)\<close> is the library's \<open>ParseInt(s, 10, 0)\<close>, on a platform whose \<open>int\<close>
  has 64 bits.  \<open>ParseUint\<close> reads the digits from the left into a 64-bit unsigned
  accumulator and stops at the first byte that is no digit (a syntax error) or at the
  first step that would overflow (a range error).  The accumulator is an integer here,
  and the two overflow checks of the library are the comparisons with \<open>maxUint64\<close>.
\<close>

definition intSize :: nat where
  "intSize = 64"

definition is_digit :: "char \<Rightarrow> bool" where
  "is_digit c = (CHR ''0'' \<le> c \<and> c \<le> CHR ''9'')"

definition digit_val :: "char \<Rightarrow> int" where
  "digit_val c = of_char c - of_char CHR ''0''"

definition maxUint64 :: int where
  "maxUint64 = 2 ^ 64 - 1"

fun ParseUint_loop :: "int \<Rightarrow> string \<Rightarrow> error + int" where
  "ParseUint_loop n [] = Inr n"
| "ParseUint_loop n (c # cs) =
     (if \<not> is_digit c then Inl ErrSyntax
      else if n \<ge> maxUint64 div 10 + 1 then Inl ErrRange
      else (let n1 = n * 10 + digit_val c
            in if n1 > maxUint64 then Inl ErrRange else ParseUint_loop n1 cs))"

definition ParseUint :: "string \<Rightarrow> error + int" where
  "ParseUint s = (if s = [] then Inl ErrSyntax else ParseUint_loop 0 s)"

definition ParseInt :: "string \<Rightarrow> error + int" where
  "ParseInt s =
     (if s = [] then Inl ErrSyntax
      else
        (let neg = (hd s = CHR ''-'');
             s' = (if hd s = CHR ''+'' \<or> hd s = CHR ''-'' then tl s else s)
         in case ParseUint s' of
              Inl ErrSyntax \<Rightarrow> Inl ErrSyntax
            | Inl err \<Rightarrow> Inl ErrRange
            | Inr un \<Rightarrow>
                if \<not> neg \<and> un \<ge> 2 ^ (intSize - 1) then Inl ErrRange
                else if neg \<and> un > 2 ^ (intSize - 1) then Inl ErrRange
                else Inr (if neg then - un else un)))"

definition Atoi :: "string \<Rightarrow> error + int" where
  "Atoi s = ParseInt s"

text \<open>\<open>time.Unix(sec, nsec)\<close>; nanoseconds outside a second are carried into the seconds.\<close>

definition time_Unix :: "int \<Rightarrow> int \<Rightarrow> Time" where
  "time_Unix sec nsec =
     \<lparr>unixSec = sec + nsec div 1000000000, unixNsec = nsec mod 1000000000\<rparr>"

text \<open>
  \<open>UnmarshalJSON\<close> writes through its receiver: the result is the receiver afterwards
  and the returned error (\<open>None\<close> is \<open>nil\<close>).
\<close>

definition UnmarshalJSON :: "timeUnmarshaler \<Rightarrow> string \<Rightarrow> timeUnmarshaler \<times> error option" where
  "UnmarshalJSON t str =
     (case Atoi str of
        Inl err \<Rightarrow> (t, Some err)
      | Inr unix \<Rightarrow> (time_Unix unix 0, None))"

subsection \<open>What the specification calls an integer token and a calendar date\<close>

text \<open>
  A base-10 integer token, as the specification's words have it: decimal digits, at
  least one, after an optional sign; and the number it denotes.
\<close>

definition unsigned_token :: "string \<Rightarrow> bool" where
  "unsigned_token s = (s \<noteq> [] \<and> list_all is_digit s)"

definition integer_token :: "string \<Rightarrow> bool" where
  "integer_token s =
     (case s of
        [] \<Rightarrow> False
      | c # cs \<Rightarrow> if c = CHR ''+'' \<or> c = CHR ''-'' then unsigned_token cs else unsigned_token s)"

definition decimal :: "string \<Rightarrow> int" where
  "decimal s = foldl (\<lambda>n c. n * 10 + digit_val c) 0 s"

definition token_value :: "string \<Rightarrow> int" where
  "token_value s =
     (case s of
        [] \<Rightarrow> 0
      | c # cs \<Rightarrow>
          if c = CHR ''-'' then - decimal cs
          else if c = CHR ''+'' then decimal cs
          else decimal s)"

text \<open>
  The seconds since 1970-01-01T00:00:00Z of a date and time of the Gregorian calendar
  in UTC (years from 1970 on), to read a timestamp such as 2012-10-22T21:02:48Z.
\<close>

definition leap_year :: "int \<Rightarrow> bool" where
  "leap_year y = (y mod 4 = 0 \<and> (y mod 100 \<noteq> 0 \<or> y mod 400 = 0))"

definition days_in_month :: "int \<Rightarrow> nat \<Rightarrow> int" where
  "days_in_month y m =
     (if m = 2 then (if leap_year y then 29 else 28)
      else if m = 4 \<or> m = 6 \<or> m = 9 \<or> m = 11 then 30
      else 31)"

definition days_before :: "int \<Rightarrow> nat \<Rightarrow> int \<Rightarrow> int" where
  "days_before y m d =
     (\<Sum>k \<leftarrow> [1970..<nat y]. if leap_year (int k) then 366 else 365)
     + (\<Sum>k \<leftarrow> [1..<m]. days_in_month y k)
     + (d - 1)"

definition unix_of_utc :: "int \<Rightarrow> nat \<Rightarrow> int \<Rightarrow> int \<Rightarrow> int \<Rightarrow> int \<Rightarrow> int" where
  "unix_of_utc y m d hh mm ss = ((days_before y m d * 24 + hh) * 60 + mm) * 60 + ss"

section \<open>Presentation\<close>

text \<open>
  The table built in \<open>main\<close>: the composite literal gives the indices 1 to 20, so that
  the slice has 21 elements and the element 0 is the empty string.
\<close>

definition categories :: "string list" where
  "categories =
     ['''', ''none'', ''daemons'', ''devel'', ''editors'', ''emulators'', ''games'',
      ''gnome'', ''18n'', ''kde'', ''lib'', ''modules'', ''multimedia'', ''network'',
      ''office'', ''science'', ''system'', ''x11'', ''xfce'', ''kernels'', ''fonts'']"

text \<open>\<open>%v\<close> of an \<open>int\<close>: its decimal digits, after a minus sign when it is negative.\<close>

function utoa :: "int \<Rightarrow> string" where
  "utoa n =
     (if n < 10 then [char_of (of_char CHR ''0'' + n)]
      else utoa (n div 10) @ [char_of (of_char CHR ''0'' + n mod 10)])"
  by pat_completeness auto
termination
  by (relation "measure nat") auto

definition itoa :: "int \<Rightarrow> string" where
  "itoa i = (if i < 0 then CHR ''-'' # utoa (- i) else utoa i)"

text \<open>
  The body of the loop of \<open>search\<close> (lines 178 to 188) for one record: what it writes to
  the standard output, and the panic of the table lookup if there is one.  The lookup
  is an argument of the first \<open>Printf\<close>, so that nothing is written when it panics.
\<close>

definition search_entry :: "Package \<Rightarrow> string \<times> failure option" where
  "search_entry p =
     (case go_index categories (CategoryID p) of
        Inl panic \<Rightarrow> ([], Some panic)
      | Inr category \<Rightarrow>
          (ESC # ''[1;35m'' @ ''aur/'' @ category @ ''/'' @ ESC # ''[1;37m'' @ Name p @ '' ''
           @ (if OutOfDate p = 0 then ESC # ''[1;32m'' else ESC # ''[1;31m'')
           @ Version p @ [NL]
           @ ''    '' @ ESC # ''[0m'' @ Description p @ [NL],
           None))"

fun search_print :: "PackageList \<Rightarrow> string \<times> failure option" where
  "search_print [] = ([], None)"
| "search_print (p # ps) =
     (case search_entry p of
        (out, Some panic) \<Rightarrow> (out, Some panic)
      | (out, None) \<Rightarrow> (case search_print ps of (out', r) \<Rightarrow> (out @ out', r)))"

text \<open>
  The \<open>search\<close> command: the standard output and how the command ends.  It is a relation
  because \<open>sort.Sort\<close> is one.  (\<open>println\<close> writes to the standard error.)
\<close>

inductive search ::
  "(string \<Rightarrow> string) \<Rightarrow> transport \<Rightarrow> string list \<Rightarrow> string \<times> outcome \<Rightarrow> bool" where
  usage: "length args \<noteq> 1 \<Longrightarrow> search QueryEscape rpc args ([], Exit 1)"
| request_failed:
    "aurRequest rpc (''/rpc.php?type=search&arg='' @ QueryEscape a) = Inl err
     \<Longrightarrow> search QueryEscape rpc [a] ([], Panicked (PanicWith err))"
| printed:
    "aurRequest rpc (''/rpc.php?type=search&arg='' @ QueryEscape a) = Inr results
     \<Longrightarrow> sort_Sort (Results results) q
     \<Longrightarrow> search_print q = (out, r)
     \<Longrightarrow> search QueryEscape rpc [a]
           (out, case r of None \<Rightarrow> Done | Some panic \<Rightarrow> Panicked panic)"

text \<open>
  The callback of \<open>info\<close> (lines 206 to 221): what it writes and what it returns.
  \<open>Format\<close> is \<open>Time.Format("Mon 02 Jan 2006 03:04:05 PM MST")\<close> in the local time zone,
  which is the library's and the machine's.
\<close>

definition info_callback :: "(Time \<Rightarrow> string) \<Rightarrow> Package \<Rightarrow> string \<times> failure option" where
  "info_callback Format thispkg =
     (case go_index categories (CategoryID thispkg) of
        Inl panic \<Rightarrow> ([], Some panic)
      | Inr category \<Rightarrow>
          (ESC # ''[1mCategory        : '' @ ESC # ''[0m'' @ category @ [NL]
           @ ESC # ''[1mName            : '' @ ESC # ''[0m'' @ Name thispkg @ [NL]
           @ ESC # ''[1mVersion         : '' @ ESC # ''[0m'' @ Version thispkg
           @ (if OutOfDate thispkg \<noteq> 0 then '' [out of date]'' else [])
           @ [NL]
           @ ESC # ''[1mDescription     : '' @ ESC # ''[0m'' @ Description thispkg @ [NL]
           @ ESC # ''[1mURL             : '' @ ESC # ''[0m'' @ URL thispkg @ [NL]
           @ ESC # ''[1mLicenses        : '' @ ESC # ''[0m'' @ License thispkg @ [NL]
           @ ESC # ''[1mMaintainer      : '' @ ESC # ''[0m'' @ Maintainer thispkg @ [NL]
           @ ESC # ''[1mFirst Submitted : '' @ ESC # ''[0m''
             @ Format (FirstSubmitted thispkg) @ [NL]
           @ ESC # ''[1mLast Modified   : '' @ ESC # ''[0m''
             @ Format (LastModified thispkg) @ [NL]
           @ ESC # ''[1mVotes           : '' @ ESC # ''[0m'' @ itoa (NumVotes thispkg) @ [NL]
           @ [NL],
           None))"

text \<open>The standard output that a run of \<open>multiInfo\<close> with this callback leaves.\<close>

fun info_stdout :: "(Time \<Rightarrow> string) \<Rightarrow> event list \<Rightarrow> string" where
  "info_stdout Format [] = []"
| "info_stdout Format (Callback p # evs) = fst (info_callback Format p) @ info_stdout Format evs"
| "info_stdout Format (Printf line # evs) = line @ info_stdout Format evs"

definition info ::
  "(string \<Rightarrow> string) \<Rightarrow> transport \<Rightarrow> (Time \<Rightarrow> string) \<Rightarrow> string list \<Rightarrow> string \<times> outcome" where
  "info QueryEscape rpc Format args =
     (if length args = 0 then ([], Exit 1)
      else
        (case multiInfo QueryEscape rpc args (\<lambda>thispkg. snd (info_callback Format thispkg)) of
           (evs, None) \<Rightarrow> (info_stdout Format evs, Done)
         | (evs, Some (Error err)) \<Rightarrow> (info_stdout Format evs, Exit 1)
         | (evs, Some panic) \<Rightarrow> (info_stdout Format evs, Panicked panic)))"

section \<open>The links built from a name\<close>

text \<open>Go's \<open>s[lo:hi]\<close> on a string: the bytes, or the panic of bounds outside
  \<open>0 \<le> lo \<le> hi \<le> len(s)\<close>.\<close>

definition go_slice :: "string \<Rightarrow> int \<Rightarrow> int \<Rightarrow> failure + string" where
  "go_slice s lo hi =
     (if 0 \<le> lo \<and> lo \<le> hi \<and> hi \<le> int (length s)
      then Inr (take (nat (hi - lo)) (drop (nat lo) s))
      else Inl SliceBoundsOutOfRange)"

text \<open>The line that \<open>tarball\<close> prints for one argument (line 251).\<close>

definition tarball_line :: "string \<Rightarrow> failure + string" where
  "tarball_line s =
     (case go_slice s 0 2 of
        Inl panic \<Rightarrow> Inl panic
      | Inr prefix \<Rightarrow>
          Inr (''https://aur.archlinux.org/packages/'' @ prefix @ ''/'' @ s @ ''/'' @ s
               @ ''.tar.gz'' @ [NL]))"

fun tarball_loop :: "string list \<Rightarrow> string \<times> outcome" where
  "tarball_loop [] = ([], Done)"
| "tarball_loop (s # args) =
     (case tarball_line s of
        Inl panic \<Rightarrow> ([], Panicked panic)
      | Inr line \<Rightarrow> (case tarball_loop args of (out, r) \<Rightarrow> (line @ out, r)))"

definition tarball :: "string list \<Rightarrow> string \<times> outcome" where
  "tarball args = (if length args = 0 then ([], Exit 1) else tarball_loop args)"

text \<open>The address that \<open>pkgbuild\<close> fetches for one argument (line 296).\<close>

definition pkgbuild_url :: "string \<Rightarrow> failure + string" where
  "pkgbuild_url s =
     (case go_slice s 0 2 of
        Inl panic \<Rightarrow> Inl panic
      | Inr prefix \<Rightarrow>
          Inr (''https://aur.archlinux.org/packages/'' @ prefix @ ''/'' @ s @ ''/PKGBUILD''))"

text \<open>
  \<open>printPKGBUILD\<close>: \<open>get\<close> gives the body that \<open>http.Get\<close> and \<open>ioutil.ReadAll\<close> deliver for
  an address, whatever the status of the answer, or their error.
\<close>

definition printPKGBUILD :: "(string \<Rightarrow> error + string) \<Rightarrow> string \<Rightarrow> string \<times> error option" where
  "printPKGBUILD get s =
     (case get s of
        Inl err \<Rightarrow> ([], Some err)
      | Inr pkgb \<Rightarrow> (pkgb @ [NL], None))"

fun pkgbuild_loop :: "(string \<Rightarrow> error + string) \<Rightarrow> string list \<Rightarrow> string \<times> outcome" where
  "pkgbuild_loop get [] = ([], Done)"
| "pkgbuild_loop get (s # args) =
     (case pkgbuild_url s of
        Inl panic \<Rightarrow> ([], Panicked panic)
      | Inr address \<Rightarrow>
          (case printPKGBUILD get address of
             (out, Some err) \<Rightarrow> (out, Exit 1)
           | (out, None) \<Rightarrow> (case pkgbuild_loop get args of (out', r) \<Rightarrow> (out @ out', r))))"

definition pkgbuild :: "(string \<Rightarrow> error + string) \<Rightarrow> string list \<Rightarrow> string \<times> outcome" where
  "pkgbuild get args = (if length args = 0 then ([], Exit 1) else pkgbuild_loop get args)"

section \<open>Example data\<close>

text \<open>
  The records of the README's examples, and small transports and callbacks, for the
  concrete runs below.
\<close>

definition jq :: Package where
  "jq =
     \<lparr>Maintainer = ''jahiy'', ID = 1, Name = ''jq'', Version = ''1.3-2'', CategoryID = 4,
      Description = ''Command-line JSON processor'', URL = ''http://stedolan.github.io/jq/'',
      License = ''custom'', NumVotes = 31, OutOfDate = 0,
      FirstSubmitted = time_Unix 1350939768 0, LastModified = time_Unix 1382517527 0,
      URLPath = ''/packages/jq/jq/jq.tar.gz''\<rparr>"

definition yaourt :: Package where
  "yaourt =
     \<lparr>Maintainer = ''tuxce'', ID = 2, Name = ''yaourt'', Version = ''1.3-1'', CategoryID = 16,
      Description = ''A pacman wrapper with extended features and AUR support'',
      URL = ''http://www.archlinux.fr/yaourt-en/'',
      License = ''GPL'', NumVotes = 2840, OutOfDate = 1,
      FirstSubmitted = time_Unix 1152045478 0, LastModified = time_Unix 1365197530 0,
      URLPath = ''/packages/ya/yaourt/yaourt.tar.gz''\<rparr>"

definition chruby :: Package where
  "chruby =
     \<lparr>Maintainer = [], ID = 3, Name = ''chruby'', Version = ''0.3.8-1'', CategoryID = 16,
      Description = ''changes the current ruby. Supports both zsh and bash.'',
      URL = [], License = [], NumVotes = 0, OutOfDate = 0,
      FirstSubmitted = time_Unix 0 0, LastModified = time_Unix 0 0,
      URLPath = ''/packages/ch/chruby/chruby.tar.gz''\<rparr>"

definition chruby_git :: Package where
  "chruby_git =
     \<lparr>Maintainer = [], ID = 4, Name = ''chruby-git'', Version = ''v0.3.6.26.ge6e4073-1'',
      CategoryID = 3, Description = ''Changes the current Ruby'',
      URL = [], License = [], NumVotes = 0, OutOfDate = 0,
      FirstSubmitted = time_Unix 0 0, LastModified = time_Unix 0 0,
      URLPath = ''/packages/ch/chruby-git/chruby-git.tar.gz''\<rparr>"

text \<open>A second record with the category and the name of \<open>jq\<close>, and a newer version.\<close>

definition jq_newer :: Package where
  "jq_newer = jq\<lparr>ID := 5, Version := ''1.4-1''\<rparr>"

text \<open>A record whose category is outside the table.\<close>

definition stray :: Package where
  "stray = jq\<lparr>Name := ''stray'', CategoryID := 21, OutOfDate := 1\<rparr>"

text \<open>A transport that answers every request with the given records.\<close>

definition answer :: "Package list \<Rightarrow> transport" where
  "answer rs request = Inr \<lparr>Type = ''multiinfo'', Count = int (length rs), Results = rs\<rparr>"

text \<open>A callback that always returns \<open>nil\<close>, and one that fails on one name.\<close>

definition succeed :: callback where
  "succeed p = None"

definition fail_on :: "string \<Rightarrow> callback" where
  "fail_on n p = (if Name p = n then Some (Error (OtherError ''refused'')) else None)"

text \<open>A stand-in for \<open>Format\<close>: the seconds in decimal.\<close>

definition seconds_text :: "Time \<Rightarrow> string" where
  "seconds_text t = itoa (unixSec t)"

text \<open>A stand-in for the web server: it answers every address with the same body.\<close>

definition not_found_page :: "string \<Rightarrow> error + string" where
  "not_found_page address = Inr ''404 Not Found''"

text \<open>Records that differ from \<open>jq\<close> in the category and the version only.\<close>

definition entry :: "int \<Rightarrow> string \<Rightarrow> Package" where
  "entry c v = jq\<lparr>CategoryID := c, Version := v\<rparr>"

section \<open>Properties of the multi-lookup\<close>

lemma scan_find:
  "scan f a rs =
     (case find (\<lambda>p. Name p = a) rs of
        None \<Rightarrow> ([], None, False)
      | Some pkg \<Rightarrow>
          (case f pkg of
             Some err \<Rightarrow> ([Callback pkg], Some err, False)
           | None \<Rightarrow> ([Callback pkg], None, True)))"
  by (induction rs) auto

lemma scan_no_failure:
  assumes "\<forall>p\<in>set rs. f p = None"
  shows "fst (snd (scan f a rs)) = None"
  using assms by (induction rs) auto

lemma reconcile_no_failure:
  assumes "\<forall>p\<in>set rs. f p = None"
  shows "snd (reconcile f rs args) = None"
proof (induction args)
  case Nil
  show ?case by simp
next
  case (Cons a args)
  obtain ev r found where s: "scan f a rs = (ev, r, found)"
    by (cases "scan f a rs") auto
  with scan_no_failure [OF assms, of a] have "r = None" by simp
  with s Cons show ?case
    by (auto split: prod.splits)
qed

lemma reconcile_append:
  assumes "snd (reconcile f rs as) = None"
  shows "reconcile f rs (as @ bs) =
           (fst (reconcile f rs as) @ fst (reconcile f rs bs), snd (reconcile f rs bs))"
  using assms
proof (induction as)
  case Nil
  show ?case by simp
next
  case (Cons a as)
  then show ?case
    by (auto split: prod.splits option.splits)
qed

lemma count_iff_unmatched:
  assumes "distinct args" and "distinct (map Name rs)" and "Name ` set rs \<subseteq> set args"
  shows "length rs < length args \<longleftrightarrow> (\<exists>a\<in>set args. a \<notin> Name ` set rs)"
proof -
  have c1: "card (Name ` set rs) = length rs"
    using assms(2) by (metis distinct_card length_map set_map)
  have c2: "card (set args) = length args"
    using assms(1) by (rule distinct_card)
  show ?thesis
  proof
    assume "length rs < length args"
    with c1 c2 have "Name ` set rs \<noteq> set args" by auto
    with assms(3) show "\<exists>a\<in>set args. a \<notin> Name ` set rs" by auto
  next
    assume "\<exists>a\<in>set args. a \<notin> Name ` set rs"
    with assms(3) have "Name ` set rs \<subset> set args" by auto
    then have "card (Name ` set rs) < card (set args)"
      by (intro psubset_card_mono) auto
    with c1 c2 show "length rs < length args" by simp
  qed
qed

text \<open>
  What line 131 computes: with a callback that does not fail, the result is the
  aggregate error exactly when the envelope holds fewer records than identifiers were
  requested.  The flag \<open>found\<close> of the loop has no part in it.  For distinct identifiers and
  an envelope whose record names are pairwise distinct and all among the requested
  identifiers the count does agree with the flags.
\<close>

lemma multiInfo_result_by_count:
  assumes "rpc (multiInfo_request QueryEscape args) = Inr response"
    and "\<forall>p\<in>set (Results response). f p = None"
  shows "(snd (multiInfo QueryEscape rpc args f) = Some (Error SomePackagesNotFound)
            \<longleftrightarrow> length (Results response) < length args)
       \<and> (snd (multiInfo QueryEscape rpc args f) = None
            \<longleftrightarrow> \<not> length (Results response) < length args)
       \<and> (distinct args \<and> distinct (map Name (Results response))
            \<and> Name ` set (Results response) \<subseteq> set args
          \<longrightarrow> (snd (multiInfo QueryEscape rpc args f) = Some (Error SomePackagesNotFound)
                \<longleftrightarrow> (\<exists>a\<in>set args. a \<notin> Name ` set (Results response))))"
proof -
  obtain ev where r: "reconcile f (Results response) args = (ev, None)"
    using reconcile_no_failure [OF assms(2), of args]
    by (cases "reconcile f (Results response) args") auto
  have m: "snd (multiInfo QueryEscape rpc args f) =
             (if length (Results response) < length args
              then Some (Error SomePackagesNotFound) else None)"
    using assms(1) r by (simp add: multiInfo_def aurRequest_def)
  show ?thesis
    using m count_iff_unmatched [of args "Results response"] by auto
qed

text \<open>
  C2: the multi-lookup is to report the aggregate error exactly when a requested
  identifier has no record of its name, as the comment above \<open>multiInfo\<close> says too.  The
  code does not: \<open>jq\<close> is requested and the envelope holds one record, \<open>yaourt\<close>; the loop
  finds no record for \<open>jq\<close> and prints the diagnostic, the count of line 131 is not
  smaller than the number of identifiers, and \<open>multiInfo\<close> returns \<open>nil\<close>.
\<close>

theorem multiInfo_unmatched_reports_success:
  "multiInfo id (answer [yaourt]) [''jq''] succeed = ([Printf (not_found_line ''jq'')], None)
   \<and> ''jq'' \<notin> Name ` set [yaourt]"
  by (simp add: multiInfo_def aurRequest_def answer_def succeed_def yaourt_def)

text \<open>
  C3: for the identifiers \<open>[X, Y, Z]\<close> and an envelope holding \<open>Z\<close>'s record and then
  \<open>Y\<close>'s, the diagnostic for \<open>X\<close> is printed, the callback is invoked on \<open>Y\<close>'s record and
  then on \<open>Z\<close>'s, twice in all, and the operation reports the aggregate error; for \<open>[X]\<close>
  and an envelope holding \<open>X\<close>'s record, the callback is invoked once and the operation
  reports success.
\<close>

theorem multiInfo_example:
  "(distinct [X, Y, Z] \<and> Name ry = Y \<and> Name rz = Z
      \<and> rpc (multiInfo_request QueryEscape [X, Y, Z]) = Inr response
      \<and> Results response = [rz, ry] \<and> f ry = None \<and> f rz = None
     \<longrightarrow> multiInfo QueryEscape rpc [X, Y, Z] f
           = ([Printf (not_found_line X), Callback ry, Callback rz],
              Some (Error SomePackagesNotFound)))
   \<and> (Name rx = X \<and> rpc (multiInfo_request QueryEscape [X]) = Inr response'
      \<and> Results response' = [rx] \<and> f rx = None
     \<longrightarrow> multiInfo QueryEscape rpc [X] f = ([Callback rx], None))"
  by (auto simp: multiInfo_def aurRequest_def)

text \<open>The same with \<open>chruby\<close>, \<open>yaourt\<close> and \<open>jq\<close>.\<close>

theorem multiInfo_example_witness:
  "multiInfo id (answer [jq, yaourt]) [''chruby'', ''yaourt'', ''jq''] succeed
     = ([Printf (not_found_line ''chruby''), Callback yaourt, Callback jq],
        Some (Error SomePackagesNotFound))
   \<and> multiInfo id (answer [jq]) [''jq''] succeed = ([Callback jq], None)"
  using multiInfo_example [where X = "''chruby''" and Y = "''yaourt''" and Z = "''jq''"
      and ry = yaourt and rz = jq and rpc = "answer [jq, yaourt]" and QueryEscape = id
      and response = "\<lparr>Type = ''multiinfo'', Count = 2, Results = [jq, yaourt]\<rparr>"
      and f = succeed]
    multiInfo_example [where X = "''jq''" and rx = jq and rpc = "answer [jq]" and QueryEscape = id
      and response' = "\<lparr>Type = ''multiinfo'', Count = 1, Results = [jq]\<rparr>"
      and f = succeed]
  by (simp add: answer_def succeed_def yaourt_def jq_def)

text \<open>
  C9: when the callback fails on the record matched for an identifier, after the
  identifiers \<open>before\<close> it were dealt with without a failure, \<open>multiInfo\<close> returns that
  failure at once: what was done is what was done for \<open>before\<close> and that one invocation,
  whatever identifiers come \<open>after\<close>, and the aggregate error is not reported.
\<close>

theorem multiInfo_callback_failure_stops:
  assumes "rpc (multiInfo_request QueryEscape (before @ a # after)) = Inr response"
    and "find (\<lambda>p. Name p = a) (Results response) = Some pkg"
    and "f pkg = Some err"
    and "snd (reconcile f (Results response) before) = None"
  shows "multiInfo QueryEscape rpc (before @ a # after) f
           = (fst (reconcile f (Results response) before) @ [Callback pkg], Some err)"
proof -
  have "scan f a (Results response) = ([Callback pkg], Some err, False)"
    using assms(2,3) by (simp add: scan_find)
  then have "reconcile f (Results response) (a # after) = ([Callback pkg], Some err)"
    by simp
  with reconcile_append [OF assms(4), of "a # after"]
  have "reconcile f (Results response) (before @ a # after)
          = (fst (reconcile f (Results response) before) @ [Callback pkg], Some err)"
    by simp
  with assms(1) show ?thesis
    by (simp add: multiInfo_def aurRequest_def)
qed

text \<open>
  A callback that fails on \<open>yaourt\<close>: \<open>jq\<close>, though in the envelope, is not shown, and
  \<open>stray\<close>, though missing, is not reported.
\<close>

theorem multiInfo_callback_failure_stops_witness:
  "multiInfo id (answer [jq, yaourt]) [''chruby'', ''yaourt'', ''jq'', ''stray''] (fail_on ''yaourt'')
     = ([Printf (not_found_line ''chruby''), Callback yaourt], Some (Error (OtherError ''refused'')))"
  using multiInfo_callback_failure_stops [of "answer [jq, yaourt]" id "[''chruby'']" "''yaourt''"
      "[''jq'', ''stray'']" "\<lparr>Type = ''multiinfo'', Count = 2, Results = [jq, yaourt]\<rparr>"
      yaourt "fail_on ''yaourt''" "Error (OtherError ''refused'')"]
  by (simp add: answer_def fail_on_def yaourt_def jq_def)

section \<open>Properties of the search-result order\<close>

lemma less_pkg_iff: "less_pkg a b \<longleftrightarrow> category_name a < category_name b"
  by (auto simp: less_pkg_def category_name_def less_prod_def)

lemma Less_in_range:
  assumes "i < length p" and "j < length p"
  shows "Less p (int i) (int j) = Inr (less_pkg (p ! i) (p ! j))"
  using assms by (simp add: Less_def go_index_def)

lemma Less_adjacent:
  assumes "Suc k < length p"
  shows "Less p (int (Suc k)) (int (Suc k) - 1) = Inr (less_pkg (p ! Suc k) (p ! k))"
proof -
  have "int (Suc k) - 1 = int k" by simp
  moreover have "k < length p" using assms by simp
  ultimately show ?thesis
    using Less_in_range [OF assms, of k] by simp
qed

text \<open>\<open>Swap\<close> and \<open>Len\<close> keep the elements: what \<open>sort.Sort\<close> leaves is a permutation.\<close>

lemma Swap_permutes:
  assumes "Swap p i j = Inr q"
  shows "mset q = mset p \<and> Len q = Len p"
proof -
  from assms have i: "nat i < length p" and j: "nat j < length p"
    and q: "q = p[nat i := p ! nat j, nat j := p ! nat i]"
    by (auto simp: Swap_def go_index_def split: if_splits)
  from mset_swap [OF j i] q show ?thesis
    by (simp add: Len_def)
qed

lemma IsSorted_nth:
  "IsSorted p \<longleftrightarrow> (\<forall>k. Suc k < length p \<longrightarrow> \<not> less_pkg (p ! Suc k) (p ! k))"
proof
  assume s: "IsSorted p"
  show "\<forall>k. Suc k < length p \<longrightarrow> \<not> less_pkg (p ! Suc k) (p ! k)"
  proof (intro allI impI)
    fix k assume k: "Suc k < length p"
    then have "Suc k \<in> set [1..<length p]" by simp
    with s have "Less p (int (Suc k)) (int (Suc k) - 1) = Inr False"
      unfolding IsSorted_def list_all_iff by blast
    with Less_adjacent [OF k] show "\<not> less_pkg (p ! Suc k) (p ! k)" by simp
  qed
next
  assume h: "\<forall>k. Suc k < length p \<longrightarrow> \<not> less_pkg (p ! Suc k) (p ! k)"
  have "Less p (int i) (int i - 1) = Inr False" if "i \<in> set [1..<length p]" for i
  proof -
    from that have "0 < i" and "i < length p" by simp_all
    then obtain k where i: "i = Suc k" and k: "Suc k < length p"
      by (cases i) simp_all
    from h k have "\<not> less_pkg (p ! Suc k) (p ! k)" by blast
    with Less_adjacent [OF k] i show ?thesis by simp
  qed
  then show "IsSorted p"
    unfolding IsSorted_def list_all_iff by blast
qed

lemma IsSorted_iff: "IsSorted p \<longleftrightarrow> sorted (map category_name p)"
proof -
  have "sorted (map category_name p) \<longleftrightarrow>
          (\<forall>k. Suc k < length p \<longrightarrow> category_name (p ! k) \<le> category_name (p ! Suc k))"
    by (simp add: sorted_iff_nth_Suc)
  also have "\<dots> \<longleftrightarrow> (\<forall>k. Suc k < length p \<longrightarrow> \<not> less_pkg (p ! Suc k) (p ! k))"
    by (simp add: less_pkg_iff not_less)
  finally show ?thesis
    by (simp add: IsSorted_nth)
qed

lemma sort_Sort_total: "sort_Sort p (List.sort_key category_name p)"
  by (simp add: sort_Sort_def IsSorted_iff)

lemma sort_Sort_positions:
  assumes "sort_Sort p q" and "i < length q" and "j < length q"
    and "less_pkg (q ! i) (q ! j)"
  shows "i < j"
proof (rule ccontr)
  assume "\<not> i < j"
  then have "j \<le> i" by simp
  moreover have "sorted (map category_name q)"
    using assms(1) by (simp add: sort_Sort_def IsSorted_iff)
  ultimately have "category_name (q ! j) \<le> category_name (q ! i)"
    using assms(2) by (simp add: sorted_iff_nth_mono)
  with assms(4) show False by (simp add: less_pkg_iff)
qed

text \<open>
  C4: the comparison is irreflexive and transitive, and two records are either ordered
  by it or have the same category and name; \<open>sort.Sort\<close> has a result for every
  collection; and in every result a record with a smaller category stands before one
  with a larger category whatever their names, and of two records with the same
  category the one with the smaller name (by byte value) stands first.
\<close>

theorem search_order_category_then_name:
  "\<not> less_pkg a a
   \<and> (less_pkg a b \<and> less_pkg b c \<longrightarrow> less_pkg a c)
   \<and> (less_pkg a b \<or> less_pkg b a \<or> (CategoryID a = CategoryID b \<and> Name a = Name b))
   \<and> (\<exists>q. sort_Sort p q)
   \<and> (sort_Sort p q \<and> i < length q \<and> j < length q \<and> q ! i = A \<and> q ! j = B
        \<longrightarrow> (CategoryID A < CategoryID B \<longrightarrow> i < j)
          \<and> (CategoryID A = CategoryID B \<and> Name A < Name B \<longrightarrow> i < j))"
proof -
  have "\<not> less_pkg a a" by (simp add: less_pkg_iff)
  moreover have "less_pkg a b \<and> less_pkg b c \<longrightarrow> less_pkg a c"
    by (auto simp: less_pkg_iff)
  moreover have "less_pkg a b \<or> less_pkg b a \<or> (CategoryID a = CategoryID b \<and> Name a = Name b)"
    by (auto simp: less_pkg_def)
  moreover have "\<exists>q. sort_Sort p q"
    using sort_Sort_total by blast
  moreover have "sort_Sort p q \<and> i < length q \<and> j < length q \<and> q ! i = A \<and> q ! j = B
        \<longrightarrow> (CategoryID A < CategoryID B \<longrightarrow> i < j)
          \<and> (CategoryID A = CategoryID B \<and> Name A < Name B \<longrightarrow> i < j)"
    using sort_Sort_positions [of p q i j] by (auto simp: less_pkg_def)
  ultimately show ?thesis by blast
qed

subsection \<open>The three methods at indices inside the slice\<close>

lemma length_swap_at [simp]: "length (swap_at data i j) = length data"
  by (simp add: swap_at_def)

lemma Less_at:
  assumes "i < length data" and "j < length data"
  shows "Less data (int i) (int j) = Inr (less_at data i j)"
  using assms by (simp add: Less_def go_index_def less_at_def)

lemma Swap_at:
  assumes "i < length data" and "j < length data"
  shows "Swap data (int i) (int j) = Inr (swap_at data i j)"
  using assms by (simp add: Swap_def go_index_def swap_at_def)

subsection \<open>A sorted slice is left as it is\<close>

lemma IsSorted_not_less_at:
  assumes "IsSorted data" and "i \<le> j" and "j < length data"
  shows "\<not> less_at data j i"
proof -
  from assms(1) have "sorted (map category_name data)"
    by (simp add: IsSorted_iff)
  with assms(2,3) have "category_name (data ! i) \<le> category_name (data ! j)"
    by (simp add: sorted_iff_nth_mono)
  then show ?thesis
    by (simp add: less_at_def less_pkg_iff)
qed

lemma insert_down_sorted:
  assumes "IsSorted data" and "i < length data"
  shows "insert_down data a i = data"
proof (cases i)
  case 0
  then show ?thesis by simp
next
  case (Suc j)
  with assms have "\<not> less_at data (Suc j) j"
    by (simp add: IsSorted_not_less_at)
  with Suc show ?thesis by simp
qed

lemma foldl_unchanged:
  assumes "\<And>x. x \<in> set xs \<Longrightarrow> f d x = d"
  shows "foldl f d xs = d"
  using assms by (induction xs) simp_all

lemma insertionSort_sorted:
  assumes "IsSorted data" and "b \<le> length data"
  shows "insertionSort data a b = data"
  unfolding insertionSort_def
proof (rule foldl_unchanged)
  fix i assume "i \<in> set [a + 1..<b]"
  with assms(2) have "i < length data" by simp
  with assms(1) show "insert_down data a i = data"
    by (rule insert_down_sorted)
qed

lemma order2_sorted:
  assumes "IsSorted data" and "x \<le> y" and "y < length data"
  shows "order2 data x y s = (x, y, s)"
  using IsSorted_not_less_at [OF assms] by (simp add: order2_def)

lemma median_sorted:
  assumes "IsSorted data" and "x \<le> y" and "y \<le> z" and "z < length data"
  shows "median data x y z s = (y, s)"
proof -
  from assms have "order2 data x y s = (x, y, s)" and "order2 data y z s = (y, z, s)"
    by (simp_all add: order2_sorted)
  then show ?thesis by (simp add: median_def)
qed

lemma choosePivot_sorted:
  assumes "IsSorted data" and "12 < length data"
  shows "snd (choosePivot data 0 (length data)) = increasingHint"
proof -
  let ?n = "length data"
  let ?q = "?n div 4"
  from assms(2) have q: "?q \<le> ?q * 2" "?q * 2 \<le> ?q * 3" "?q * 3 < ?n" "0 < ?q"
    by simp_all
  from q have q1: "?q * 3 + 1 < ?n" if "50 \<le> ?n"
    using that by simp
  have m: "median data ?q (?q * 2) (?q * 3) s = (?q * 2, s)" for s
    using assms(1) q by (simp add: median_sorted)
  have adj: "medianAdjacent data i s = (i, s)" if "0 < i" and "i + 1 < ?n" for i s
    using that assms(1) by (simp add: medianAdjacent_def median_sorted)
  show ?thesis
  proof (cases "50 \<le> ?n")
    case True
    with q q1 have "medianAdjacent data ?q s = (?q, s)"
        "medianAdjacent data (?q * 2) s = (?q * 2, s)"
        "medianAdjacent data (?q * 3) s = (?q * 3, s)" for s
      by (simp_all add: adj)
    with True m assms(2) show ?thesis
      by (simp add: choosePivot_def Let_def)
  next
    case False
    with m assms(2) show ?thesis
      by (simp add: choosePivot_def Let_def)
  qed
qed

lemma scan_sorted_sorted:
  assumes "IsSorted data" and "b \<le> length data" and "0 < i" and "i \<le> b"
  shows "scan_sorted data b i = b"
  using assms
proof (induction "b - i" arbitrary: i)
  case 0
  then have "i = b" by simp
  then show ?case by (simp add: scan_sorted.simps)
next
  case (Suc k)
  then have lt: "i < b" by simp
  with Suc.prems have "\<not> less_at data i (i - 1)"
    by (simp add: IsSorted_not_less_at)
  moreover have "scan_sorted data b (i + 1) = b"
  proof (rule Suc.hyps(1))
    from Suc.hyps(2) show "k = b - (i + 1)" by simp
    from lt show "i + 1 \<le> b" by simp
  qed (use Suc.prems in simp_all)
  ultimately have "(if i < b \<and> \<not> less_at data i (i - 1)
      then scan_sorted data b (i + 1) else i) = b"
    using lt by simp
  then show ?case
    by (subst scan_sorted.simps)
qed

lemma partialInsertionSort_sorted:
  assumes "IsSorted data" and "0 < length data"
  shows "partialInsertionSort data 0 (length data) = (data, True)"
proof -
  from assms(2) have "scan_sorted data (length data) 1 = length data"
    by (intro scan_sorted_sorted assms(1)) (simp_all add: Suc_le_eq)
  then show ?thesis
    by (simp add: partialInsertionSort_def numeral_eq_Suc)
qed

lemma bits_Len_pos: "0 < n \<Longrightarrow> 0 < bits_Len n"
  by (subst bits_Len.simps) simp

lemma Sort_sorted:
  assumes "IsSorted data"
  shows "Sort pick data = Some data"
proof (cases "length data \<le> 12")
  case True
  with assms show ?thesis
    by (simp add: Sort_def Let_def insertionSort_sorted)
next
  case False
  then have n: "12 < length data" by simp
  obtain pivot where p: "choosePivot data 0 (length data) = (pivot, increasingHint)"
    using choosePivot_sorted [OF assms n]
    by (cases "choosePivot data 0 (length data)") simp
  from n have "data \<noteq> []" by auto
  then have pos: "0 < length data" by simp
  from bits_Len_pos [OF pos] have l: "bits_Len (length data) \<noteq> 0" by simp
  from assms pos have s: "partialInsertionSort data 0 (length data) = (data, True)"
    by (rule partialInsertionSort_sorted)
  from n have "\<not> length data \<le> 1" and "\<not> length data - 0 \<le> 12" by simp_all
  with p l s show ?thesis
    by (simp add: Sort_def Let_def split del: if_split
          cong: let_weak_cong prod.case_cong_weak)
qed

subsection \<open>Insertion sort keeps tied records in their order\<close>

lemma insert_down_inserts:
  "\<exists>zs. insert_down (xs @ x # ys) 0 (length xs) = zs @ ys
     \<and> mset zs = mset (xs @ [x])
     \<and> (sorted (map category_name xs) \<longrightarrow> sorted (map category_name zs))
     \<and> (\<forall>k. filter (\<lambda>r. category_name r = k) zs
            = filter (\<lambda>r. category_name r = k) (xs @ [x]))"
proof (induction xs arbitrary: ys rule: rev_induct)
  case Nil
  show ?case by simp
next
  case (snoc y ws)
  have at: "((ws @ [y]) @ x # ys) ! length ws = y"
      "((ws @ [y]) @ x # ys) ! Suc (length ws) = x"
    by (simp_all add: nth_append)
  show ?case
  proof (cases "less_pkg x y")
    case True
    then have k: "category_name x < category_name y"
      by (simp add: less_pkg_iff)
    have "swap_at ((ws @ [y]) @ x # ys) (Suc (length ws)) (length ws) = ws @ x # y # ys"
      unfolding swap_at_def at by (simp add: list_update_append)
    with True at
    have step: "insert_down ((ws @ [y]) @ x # ys) 0 (length (ws @ [y]))
        = insert_down (ws @ x # y # ys) 0 (length ws)"
      by (simp add: less_at_def)
    from snoc [of "y # ys"] obtain zs where zs:
      "insert_down (ws @ x # y # ys) 0 (length ws) = zs @ y # ys"
      "mset zs = mset (ws @ [x])"
      "sorted (map category_name ws) \<longrightarrow> sorted (map category_name zs)"
      "\<forall>k. filter (\<lambda>r. category_name r = k) zs
            = filter (\<lambda>r. category_name r = k) (ws @ [x])"
      by blast
    from arg_cong [OF zs(2), of set_mset] have set: "set zs = insert x (set ws)"
      by simp
    have "insert_down ((ws @ [y]) @ x # ys) 0 (length (ws @ [y])) = (zs @ [y]) @ ys"
      using step zs(1) by simp
    moreover have "mset (zs @ [y]) = mset ((ws @ [y]) @ [x])"
      using zs(2) by simp
    moreover have "sorted (map category_name (zs @ [y]))"
      if "sorted (map category_name (ws @ [y]))"
      using that zs(3) set k by (auto simp: sorted_append)
    moreover have "filter (\<lambda>r. category_name r = c) (zs @ [y])
        = filter (\<lambda>r. category_name r = c) ((ws @ [y]) @ [x])" for c
      using zs(4) [rule_format, of c] k by auto
    ultimately show ?thesis by blast
  next
    case False
    then have k: "category_name y \<le> category_name x"
      by (simp add: less_pkg_iff)
    from False at
    have "insert_down ((ws @ [y]) @ x # ys) 0 (length (ws @ [y])) = ((ws @ [y]) @ [x]) @ ys"
      by (simp add: less_at_def)
    moreover have "sorted (map category_name ((ws @ [y]) @ [x]))"
      if "sorted (map category_name (ws @ [y]))"
      using that k by (auto simp: sorted_append)
    ultimately show ?thesis by blast
  qed
qed

lemma insertionSort_prefix:
  assumes "i \<le> length data"
  shows "\<exists>zs. foldl (\<lambda>d i. insert_down d 0 i) data [1..<i] = zs @ drop i data
     \<and> mset zs = mset (take i data)
     \<and> sorted (map category_name zs)
     \<and> (\<forall>k. filter (\<lambda>r. category_name r = k) zs
            = filter (\<lambda>r. category_name r = k) (take i data))"
  using assms
proof (induction i)
  case 0
  show ?case by simp
next
  case (Suc i)
  show ?case
  proof (cases i)
    case 0
    with Suc.prems have "data = take 1 data @ drop 1 data" and "length (take 1 data) = 1"
      by simp_all
    with 0 show ?thesis
      by (intro exI [of _ "take 1 data"]) (cases data; simp)
  next
    case (Suc j)
    from Suc.prems have lt: "i < length data" by simp
    with Suc.IH obtain zs where zs:
      "foldl (\<lambda>d i. insert_down d 0 i) data [1..<i] = zs @ drop i data"
      "mset zs = mset (take i data)"
      "sorted (map category_name zs)"
      "\<forall>k. filter (\<lambda>r. category_name r = k) zs
            = filter (\<lambda>r. category_name r = k) (take i data)"
      by auto
    from zs(2) lt have len: "length zs = i"
      by (auto dest: mset_eq_length)
    from lt have d: "drop i data = data ! i # drop (Suc i) data"
      by (simp add: Cons_nth_drop_Suc)
    from lt have t: "take (Suc i) data = take i data @ [data ! i]"
      by (simp add: take_Suc_conv_app_nth)
    from insert_down_inserts [of zs "data ! i" "drop (Suc i) data"] len zs(3)
    obtain ws where ws:
      "insert_down (zs @ data ! i # drop (Suc i) data) 0 i = ws @ drop (Suc i) data"
      "mset ws = mset (zs @ [data ! i])"
      "sorted (map category_name ws)"
      "\<forall>k. filter (\<lambda>r. category_name r = k) ws
            = filter (\<lambda>r. category_name r = k) (zs @ [data ! i])"
      by auto
    from Suc have "[1..<Suc i] = [1..<i] @ [i]" by simp
    then have "foldl (\<lambda>d i. insert_down d 0 i) data [1..<Suc i]
        = insert_down (zs @ data ! i # drop (Suc i) data) 0 i"
      using zs(1) d by simp
    with ws(1) have "foldl (\<lambda>d i. insert_down d 0 i) data [1..<Suc i]
        = ws @ drop (Suc i) data"
      by simp
    moreover from ws(2) zs(2) t have "mset ws = mset (take (Suc i) data)"
      by simp
    moreover
    have "filter (\<lambda>r. category_name r = k) ws
        = filter (\<lambda>r. category_name r = k) (take (Suc i) data)" for k
      using ws(4) [rule_format, of k] zs(4) [rule_format, of k] t by simp
    ultimately show ?thesis
      using ws(3) by blast
  qed
qed

lemma insertionSort_stable:
  "sort_Sort data (insertionSort data 0 (length data))
   \<and> filter (\<lambda>r. category_name r = k) (insertionSort data 0 (length data))
       = filter (\<lambda>r. category_name r = k) data"
proof -
  from insertionSort_prefix [of "length data" data] obtain zs where zs:
    "foldl (\<lambda>d i. insert_down d 0 i) data [1..<length data] = zs"
    "mset zs = mset data"
    "sorted (map category_name zs)"
    "\<forall>k. filter (\<lambda>r. category_name r = k) zs = filter (\<lambda>r. category_name r = k) data"
    by auto
  from zs(1) have "insertionSort data 0 (length data) = zs"
    by (simp add: insertionSort_def)
  with zs(2,3) zs(4) [rule_format, of k] show ?thesis
    by (simp add: sort_Sort_def IsSorted_iff)
qed

subsection \<open>The sort returns\<close>

lemma scan_up_ge: "i \<le> scan_up c i j"
proof (induction c i j rule: scan_up.induct)
  case (1 c i j)
  show ?case
  proof (cases "i \<le> j \<and> c i")
    case True
    with 1 have "i + 1 \<le> scan_up c (i + 1) j" by simp
    with True show ?thesis by (subst scan_up.simps) simp
  next
    case False
    then show ?thesis by (subst scan_up.simps) auto
  qed
qed

lemma scan_up_le: "i \<le> Suc j \<Longrightarrow> scan_up c i j \<le> Suc j"
proof (induction c i j rule: scan_up.induct)
  case (1 c i j)
  show ?case
  proof (cases "i \<le> j \<and> c i")
    case True
    with 1 have "scan_up c (i + 1) j \<le> Suc j" by simp
    with True show ?thesis by (subst scan_up.simps) simp
  next
    case False
    with 1(2) show ?thesis by (subst scan_up.simps) auto
  qed
qed

lemma scan_up_stop: "scan_up c i j \<le> j \<Longrightarrow> \<not> c (scan_up c i j)"
proof (induction c i j rule: scan_up.induct)
  case (1 c i j)
  show ?case
  proof (cases "i \<le> j \<and> c i")
    case True
    then have eq: "scan_up c i j = scan_up c (i + 1) j"
      by (subst scan_up.simps) simp
    with 1 True show ?thesis by simp
  next
    case False
    then have eq: "scan_up c i j = i"
      by (subst scan_up.simps) auto
    with 1(2) False show ?thesis by simp
  qed
qed

lemma scan_down_le: "scan_down c i j \<le> j"
  by (induction c i j rule: scan_down.induct) (auto simp: le_SucI)

lemma scan_down_ge: "i \<le> Suc j \<Longrightarrow> i \<le> Suc (scan_down c i j)"
  by (induction c i j rule: scan_down.induct) auto

lemma scan_down_stop: "0 < i \<Longrightarrow> i \<le> scan_down c i j \<Longrightarrow> \<not> c (scan_down c i j)"
  by (induction c i j rule: scan_down.induct) (auto split: if_splits)

text \<open>
  The two scans stop at different indices when they have not crossed: the one stops
  at an element that is not smaller than the pivot, the other at one that is.
\<close>

lemma scans_apart:
  assumes "0 < i" and "i \<le> Suc j"
    and "i' = scan_up c i j" and "j' = scan_down (\<lambda>k. \<not> c k) i' j" and "i' \<le> j'"
  shows "i' < j'" and "i \<le> i'" and "j' \<le> j"
proof -
  from assms(3) show i: "i \<le> i'" by (simp add: scan_up_ge)
  from assms(4) show j: "j' \<le> j" by (simp add: scan_down_le)
  from assms(5) j have "i' \<le> j" by simp
  with assms(3) have "\<not> c i'" by (simp add: scan_up_stop)
  moreover have "c j'"
  proof -
    from i assms(1) have "0 < i'" by simp
    from scan_down_stop [OF this, of "\<lambda>k. \<not> c k" j] assms(4,5) show ?thesis by simp
  qed
  ultimately have "i' \<noteq> j'" by auto
  with assms(5) show "i' < j'" by simp
qed

lemma partition_loop_bounds:
  assumes "0 < i" and "i \<le> Suc j"
  shows "snd (partition_loop data a i j) \<le> j \<and> i \<le> Suc (snd (partition_loop data a i j))"
  using assms
proof (induction data a i j rule: partition_loop.induct)
  case (1 data a i j)
  define i' where "i' = scan_up (\<lambda>i. less_at data i a) i j"
  define j' where "j' = scan_down (\<lambda>j. \<not> less_at data j a) i' j"
  from 1(2) have ii: "i \<le> i'" and "0 < i'"
    unfolding i'_def using scan_up_ge [of i "\<lambda>i. less_at data i a" j] by simp_all
  from 1(3) have i'j: "i' \<le> Suc j"
    unfolding i'_def by (rule scan_up_le)
  have jj: "j' \<le> j" unfolding j'_def by (rule scan_down_le)
  from i'j have ij': "i' \<le> Suc j'" unfolding j'_def by (rule scan_down_ge)
  show ?case
  proof (cases "i' > j'")
    case True
    then have "partition_loop data a i j = (data, j')"
      by (subst partition_loop.simps) (simp add: i'_def j'_def Let_def)
    with ii jj ij' show ?thesis by simp
  next
    case False
    then have le: "i' \<le> j'" by simp
    with scans_apart(1) [OF 1(2,3) i'_def j'_def] have lt: "i' < j'" by simp
    from False have eq: "partition_loop data a i j
        = partition_loop (swap_at data i' j') a (i' + 1) (j' - 1)"
      by (subst partition_loop.simps) (simp add: i'_def j'_def Let_def)
    from lt have "0 < i' + 1" and "i' + 1 \<le> Suc (j' - 1)" by simp_all
    with 1(1) [OF i'_def j'_def False]
    have "snd (partition_loop (swap_at data i' j') a (i' + 1) (j' - 1)) \<le> j' - 1"
      and "i' + 1 \<le> Suc (snd (partition_loop (swap_at data i' j') a (i' + 1) (j' - 1)))"
      by simp_all
    with ii jj have "snd (partition_loop (swap_at data i' j') a (i' + 1) (j' - 1)) \<le> j"
      and "i \<le> Suc (snd (partition_loop (swap_at data i' j') a (i' + 1) (j' - 1)))"
      by linarith+
    with eq show ?thesis by simp
  qed
qed

lemma partition_mid:
  assumes "a < b"
  shows "a \<le> fst (snd (partition_slice data a b pivot)) \<and> fst (snd (partition_slice data a b pivot)) < b"
proof -
  define d where "d = swap_at data a pivot"
  define i where "i = scan_up (\<lambda>i. less_at d i a) (a + 1) (b - 1)"
  define j where "j = scan_down (\<lambda>j. \<not> less_at d j a) i (b - 1)"
  from assms have s: "0 < a + 1" "a + 1 \<le> Suc (b - 1)" by simp_all
  have ai: "a + 1 \<le> i"
    unfolding i_def by (rule scan_up_ge)
  from s(2) have "i \<le> Suc (b - 1)"
    unfolding i_def by (rule scan_up_le)
  then have ij: "i \<le> Suc j"
    unfolding j_def by (rule scan_down_ge)
  have jb: "j \<le> b - 1"
    unfolding j_def by (rule scan_down_le)
  show ?thesis
  proof (cases "i > j")
    case True
    then have "partition_slice data a b pivot = (swap_at d j a, j, True)"
      by (simp add: partition_slice_def Let_def d_def i_def j_def)
    with ai ij jb assms show ?thesis by simp
  next
    case False
    then have "i \<le> j" by simp
    with scans_apart(1) [OF s i_def j_def] have lt: "i < j" by simp
    obtain d' j' where l: "partition_loop (swap_at d i j) a (i + 1) (j - 1) = (d', j')"
      by (cases "partition_loop (swap_at d i j) a (i + 1) (j - 1)")
    from lt have "0 < i + 1" and "i + 1 \<le> Suc (j - 1)" by simp_all
    from partition_loop_bounds [OF this, of "swap_at d i j" a] l
    have "j' \<le> j - 1" and "i + 1 \<le> Suc j'" by simp_all
    moreover from False l have "partition_slice data a b pivot = (swap_at d' j' a, j', False)"
      by (simp add: partition_slice_def Let_def d_def i_def j_def)
    ultimately show ?thesis
      using ai jb assms by simp
  qed
qed

lemma partitionEqual_loop_ge: "i \<le> snd (partitionEqual_loop data a i j)"
proof (induction data a i j rule: partitionEqual_loop.induct)
  case (1 data a i j)
  define i' where "i' = scan_up (\<lambda>i. \<not> less_at data a i) i j"
  define j' where "j' = scan_down (\<lambda>j. less_at data a j) i' j"
  have ii: "i \<le> i'"
    unfolding i'_def by (rule scan_up_ge)
  show ?case
  proof (cases "i' > j'")
    case True
    then have "partitionEqual_loop data a i j = (data, i')"
      by (subst partitionEqual_loop.simps) (simp add: i'_def j'_def Let_def)
    with ii show ?thesis by simp
  next
    case False
    then have eq: "partitionEqual_loop data a i j
        = partitionEqual_loop (swap_at data i' j') a (i' + 1) (j' - 1)"
      by (subst partitionEqual_loop.simps) (simp add: i'_def j'_def Let_def)
    from 1 [OF i'_def j'_def False]
    have "i' + 1 \<le> snd (partitionEqual_loop (swap_at data i' j') a (i' + 1) (j' - 1))" .
    with eq ii show ?thesis by simp
  qed
qed

lemma partitionEqual_mid: "a < snd (partitionEqual data a b pivot)"
  using partitionEqual_loop_ge [of "a + 1" "swap_at data a pivot" a "b - 1"]
  by (simp add: partitionEqual_def)

lemma pdqsort_returns:
  "b - a < turns \<Longrightarrow> \<exists>d. pdqsort turns pick data a b limit wasBalanced wasPartitioned = Some d"
proof (induction turns arbitrary: data a b limit wasBalanced wasPartitioned)
  case 0
  then show ?case by simp
next
  case (Suc turns)
  have rec: "\<exists>d. pdqsort turns pick data' a' b' l wb wp = Some d"
    if "b' - a' < b - a" for data' a' b' l wb wp
  proof -
    from that Suc.prems have "b' - a' < turns" by simp
    then show ?thesis by (rule Suc.IH)
  qed
  have two: "\<exists>d. (case pdqsort turns pick d4 a1 b1 l True True of
                   None \<Rightarrow> None
                 | Some d5 \<Rightarrow> pdqsort turns pick d5 a2 b2 l wb wp) = Some d"
    if "b1 - a1 < b - a" and "b2 - a2 < b - a" for d4 a1 b1 a2 b2 l wb wp
  proof -
    from rec [OF that(1)] obtain d5 where "pdqsort turns pick d4 a1 b1 l True True = Some d5"
      by blast
    moreover from rec [OF that(2)] obtain d where "pdqsort turns pick d5 a2 b2 l wb wp = Some d"
      by blast
    ultimately show ?thesis by simp
  qed
  show ?case
  proof (cases "b - a \<le> 12 \<or> limit = 0")
    case True
    then show ?thesis
      by (cases "b - a \<le> 12")
        (simp_all add: Let_def split del: if_split cong: let_weak_cong prod.case_cong_weak)
  next
    case False
    then have "\<not> b - a \<le> 12" by simp
    then have ab: "a < b" by arith
    obtain d1 l' where 1:
      "(if \<not> wasBalanced then (breakPatterns pick data a b, limit - 1) else (data, limit))
         = (d1, l')"
      by (cases "if \<not> wasBalanced then (breakPatterns pick data a b, limit - 1)
                 else (data, limit)")
    obtain pivot hint where 2: "choosePivot d1 a b = (pivot, hint)"
      by (cases "choosePivot d1 a b")
    obtain d2 pivot' hint' where 3:
      "(if hint = decreasingHint
        then (reverseRange d1 a b, (b - 1) - (pivot - a), increasingHint)
        else (d1, pivot, hint)) = (d2, pivot', hint')"
      by (cases "if hint = decreasingHint
                 then (reverseRange d1 a b, (b - 1) - (pivot - a), increasingHint)
                 else (d1, pivot, hint)")
    obtain d3 sorted' where 4:
      "(if wasBalanced \<and> wasPartitioned \<and> hint' = increasingHint
        then partialInsertionSort d2 a b else (d2, False)) = (d3, sorted')"
      by (cases "if wasBalanced \<and> wasPartitioned \<and> hint' = increasingHint
                 then partialInsertionSort d2 a b else (d2, False)")
    obtain d4 mid where 5: "partitionEqual d3 a b pivot' = (d4, mid)"
      by (cases "partitionEqual d3 a b pivot'")
    obtain e4 m ap where 6: "partition_slice d3 a b pivot' = (e4, m, ap)"
      by (cases "partition_slice d3 a b pivot'")
    from partitionEqual_mid [of a d3 b pivot'] 5 have mid: "a < mid" by simp
    from partition_mid [OF ab, of d3 pivot'] 6 have m: "a \<le> m" "m < b" by simp_all
    have "pdqsort (Suc turns) pick data a b limit wasBalanced wasPartitioned =
      (if sorted' then Some d3
       else if a > 0 \<and> \<not> less_at d3 (a - 1) pivot' then
         (let (d4, mid) = partitionEqual d3 a b pivot'
          in pdqsort turns pick d4 mid b l' wasBalanced wasPartitioned)
       else
         (let (d4, mid, alreadyPartitioned) = partition_slice d3 a b pivot';
              leftLen = mid - a;
              rightLen = b - mid;
              balanceThreshold = (b - a) div 8
          in if leftLen < rightLen then
               (case pdqsort turns pick d4 a mid l' True True of
                  None \<Rightarrow> None
                | Some d5 \<Rightarrow>
                    pdqsort turns pick d5 (mid + 1) b l'
                      (leftLen \<ge> balanceThreshold) alreadyPartitioned)
             else
               (case pdqsort turns pick d4 (mid + 1) b l' True True of
                  None \<Rightarrow> None
                | Some d5 \<Rightarrow>
                    pdqsort turns pick d5 a mid l'
                      (rightLen \<ge> balanceThreshold) alreadyPartitioned)))"
      using False 1 2 3 4
      by (simp add: Let_def split del: if_split
            cong: let_weak_cong prod.case_cong_weak option.case_cong_weak)
    also have "\<dots> =
      (if sorted' then Some d3
       else if a > 0 \<and> \<not> less_at d3 (a - 1) pivot'
         then pdqsort turns pick d4 mid b l' wasBalanced wasPartitioned
       else if m - a < b - m
         then (case pdqsort turns pick e4 a m l' True True of
                 None \<Rightarrow> None
               | Some d5 \<Rightarrow> pdqsort turns pick d5 (m + 1) b l'
                             ((b - a) div 8 \<le> m - a) ap)
       else (case pdqsort turns pick e4 (m + 1) b l' True True of
               None \<Rightarrow> None
             | Some d5 \<Rightarrow> pdqsort turns pick d5 a m l'
                           ((b - a) div 8 \<le> b - m) ap))"
      by (simp only: 5 6 Let_def prod.case)
    finally have unfold: "pdqsort (Suc turns) pick data a b limit wasBalanced wasPartitioned =
      (if sorted' then Some d3
       else if a > 0 \<and> \<not> less_at d3 (a - 1) pivot'
         then pdqsort turns pick d4 mid b l' wasBalanced wasPartitioned
       else if m - a < b - m
         then (case pdqsort turns pick e4 a m l' True True of
                 None \<Rightarrow> None
               | Some d5 \<Rightarrow> pdqsort turns pick d5 (m + 1) b l'
                             ((b - a) div 8 \<le> m - a) ap)
       else (case pdqsort turns pick e4 (m + 1) b l' True True of
               None \<Rightarrow> None
             | Some d5 \<Rightarrow> pdqsort turns pick d5 a m l'
                           ((b - a) div 8 \<le> b - m) ap))" .
    from mid ab have r1: "b - mid < b - a" by simp
    from m have r2: "m - a < b - a" and r3: "b - (m + 1) < b - a" by simp_all
    note f1 = rec [where a' = mid and b' = b and data' = d4 and l = l'
        and wb = wasBalanced and wp = wasPartitioned, OF r1]
    note f2 = two [where ?a1.0 = a and ?b1.0 = m and ?a2.0 = "m + 1" and ?b2.0 = b
        and ?d4.0 = e4 and l = l' and wb = "(b - a) div 8 \<le> m - a" and wp = ap, OF r2 r3]
    note f3 = two [where ?a1.0 = "m + 1" and ?b1.0 = b and ?a2.0 = a and ?b2.0 = m
        and ?d4.0 = e4 and l = l' and wb = "(b - a) div 8 \<le> b - m" and wp = ap, OF r3 r2]
    consider (sorted) "sorted'"
      | (equal) "\<not> sorted'" "a > 0 \<and> \<not> less_at d3 (a - 1) pivot'"
      | (left) "\<not> sorted'" "\<not> (a > 0 \<and> \<not> less_at d3 (a - 1) pivot')" "m - a < b - m"
      | (right) "\<not> sorted'" "\<not> (a > 0 \<and> \<not> less_at d3 (a - 1) pivot')" "\<not> m - a < b - m"
      by blast
    then show ?thesis
    proof cases
      case sorted
      then show ?thesis unfolding unfold by (simp only: if_True) blast
    next
      case equal
      with f1 show ?thesis unfolding unfold by (simp only: if_True if_False simp_thms)
    next
      case left
      with f2 show ?thesis unfolding unfold by (simp only: if_True if_False simp_thms)
    next
      case right
      with f3 show ?thesis unfolding unfold by (simp only: if_True if_False simp_thms)
    qed
  qed
qed

lemma Sort_returns: "\<exists>q. Sort pick p = Some q"
  using pdqsort_returns [where a = 0 and b = "length p" and turns = "Suc (length p)"
      and pick = pick and data = p and limit = "bits_Len (length p)"
      and wasBalanced = True and wasPartitioned = True]
  by (simp add: Sort_def Let_def del: pdqsort.simps)

lemma Sort_short:
  assumes "length p \<le> 12"
  shows "Sort pick p = Some (insertionSort p 0 (length p))"
proof (cases "length p \<le> 1")
  case True
  then have "[0 + 1..<length p] = []" by simp
  then have "insertionSort p 0 (length p) = p"
    by (simp only: insertionSort_def foldl.simps)
  with True show ?thesis by (simp add: Sort_def)
next
  case False
  with assms show ?thesis by (simp add: Sort_def Let_def)
qed

text \<open>
  C5 (as amended): the sort returns for every collection, with one result, which the
  collection settles, so that repeated runs on the same input give the same output.
  For a collection of at most twelve records the result is a sorted permutation in
  which the records that share category and name stand in the order of the input.
  (In a longer collection they can be exchanged: the thirteen records below.)
\<close>

theorem sort_keeps_ties_of_short_collections:
  "(\<exists>!q. Sort pick p = Some q)
   \<and> (length p \<le> 12 \<longrightarrow>
        (\<exists>q. Sort pick p = Some q \<and> sort_Sort p q
           \<and> (\<forall>k. filter (\<lambda>r. category_name r = k) q
                  = filter (\<lambda>r. category_name r = k) p)))"
proof -
  from Sort_returns [of pick p] have "\<exists>!q. Sort pick p = Some q" by auto
  moreover have "\<exists>q. Sort pick p = Some q \<and> sort_Sort p q
      \<and> (\<forall>k. filter (\<lambda>r. category_name r = k) q = filter (\<lambda>r. category_name r = k) p)"
    if "length p \<le> 12"
  proof -
    from that have "Sort pick p = Some (insertionSort p 0 (length p))"
      by (rule Sort_short)
    moreover have "sort_Sort p (insertionSort p 0 (length p))"
      using insertionSort_stable [of p] by blast
    moreover have "\<forall>k. filter (\<lambda>r. category_name r = k) (insertionSort p 0 (length p))
        = filter (\<lambda>r. category_name r = k) p"
      using insertionSort_stable [of p] by blast
    ultimately show ?thesis by blast
  qed
  ultimately show ?thesis by blast
qed

text \<open>
  C6: a collection that is sorted already is returned by the sort as it is.  So is, in
  particular, every sorted permutation of a collection, which is what the library
  promises of a first application; and for a collection of at most twelve records the
  result of the sort is returned as it is by a second application.
\<close>

theorem sort_leaves_sorted_unchanged:
  "(IsSorted p \<longrightarrow> Sort pick p = Some p)
   \<and> (sort_Sort p q \<longrightarrow> Sort pick q = Some q)
   \<and> (length p \<le> 12 \<longrightarrow> (\<exists>q. Sort pick p = Some q \<and> Sort pick q = Some q))"
proof -
  have "Sort pick p = Some p" if "IsSorted p"
    using that by (rule Sort_sorted)
  moreover have "Sort pick q = Some q" if "sort_Sort p q"
  proof -
    from that have "IsSorted q" by (simp add: sort_Sort_def)
    then show ?thesis by (rule Sort_sorted)
  qed
  moreover have "\<exists>q. Sort pick p = Some q \<and> Sort pick q = Some q" if "length p \<le> 12"
  proof -
    from that have "Sort pick p = Some (insertionSort p 0 (length p))"
      by (rule Sort_short)
    moreover have "IsSorted (insertionSort p 0 (length p))"
      using insertionSort_stable [of p] by (simp add: sort_Sort_def)
    then have "Sort pick (insertionSort p 0 (length p)) = Some (insertionSort p 0 (length p))"
      by (rule Sort_sorted)
    ultimately show ?thesis by blast
  qed
  ultimately show ?thesis by blast
qed

subsection \<open>Concrete runs of the sort\<close>

lemma example_IsSorted: "IsSorted [chruby_git, jq, chruby, yaourt]"
  by code_simp

lemma example_sort_Sort:
  "sort_Sort [yaourt, jq, chruby, chruby_git] [chruby_git, jq, chruby, yaourt]"
  by (simp add: sort_Sort_def example_IsSorted add_mset_commute)

text \<open>
  The README's four records: \<open>chruby-git\<close> (devel) comes first, \<open>jq\<close> (editors) next, and
  of the two records of the category system \<open>chruby\<close> stands before \<open>yaourt\<close>.
\<close>

theorem search_order_category_then_name_witness:
  "\<not> less_pkg chruby_git chruby_git
   \<and> less_pkg chruby_git jq \<and> less_pkg jq yaourt \<and> less_pkg chruby_git yaourt
   \<and> sort_Sort [yaourt, jq, chruby, chruby_git] [chruby_git, jq, chruby, yaourt]
   \<and> CategoryID jq < CategoryID yaourt
   \<and> CategoryID chruby = CategoryID yaourt \<and> Name chruby < Name yaourt
   \<and> (1::nat) < 3 \<and> (2::nat) < 3"
proof -
  note first = search_order_category_then_name [where a = chruby_git and b = jq and c = yaourt
      and p = "[yaourt, jq, chruby, chruby_git]" and q = "[chruby_git, jq, chruby, yaourt]"
      and i = 1 and j = 3 and A = jq and B = yaourt]
  note second = search_order_category_then_name [where a = chruby_git and b = chruby_git
      and c = chruby_git
      and p = "[yaourt, jq, chruby, chruby_git]" and q = "[chruby_git, jq, chruby, yaourt]"
      and i = 2 and j = 3 and A = chruby and B = yaourt]
  have l: "less_pkg chruby_git jq" "less_pkg jq yaourt"
    by (simp_all add: less_pkg_def jq_def yaourt_def chruby_git_def)
  have c: "CategoryID jq < CategoryID yaourt"
      "CategoryID chruby = CategoryID yaourt" "Name chruby < Name yaourt"
    by (simp_all add: jq_def yaourt_def chruby_def)
  have i: "(1::nat) < length [chruby_git, jq, chruby, yaourt]"
      "(2::nat) < length [chruby_git, jq, chruby, yaourt]"
      "(3::nat) < length [chruby_git, jq, chruby, yaourt]"
      "[chruby_git, jq, chruby, yaourt] ! 1 = jq"
      "[chruby_git, jq, chruby, yaourt] ! 2 = chruby"
      "[chruby_git, jq, chruby, yaourt] ! 3 = yaourt"
    by simp_all
  from first l have "less_pkg chruby_git yaourt" by blast
  moreover from first have "\<not> less_pkg chruby_git chruby_git" by blast
  moreover from first example_sort_Sort i c have "(1::nat) < 3" by blast
  moreover from second example_sort_Sort i c have "(2::nat) < 3" by blast
  ultimately show ?thesis using l c example_sort_Sort by blast
qed

text \<open>
  Seven records, of which \<open>jq\<close> and \<open>jq_newer\<close> share category and name: the sort brings
  the last record to the front and leaves \<open>jq\<close> before \<open>jq_newer\<close>.
\<close>

lemma seven_Sort:
  "Sort (\<lambda>length n. 0)
     [jq, jq_newer, entry 5 ''a'', entry 5 ''b'', entry 6 ''a'', entry 7 ''a'', entry 1 ''a'']
   = Some [entry 1 ''a'', jq, jq_newer, entry 5 ''a'', entry 5 ''b'', entry 6 ''a'',
       entry 7 ''a'']"
  by code_simp

lemma seven_ties:
  "filter (\<lambda>r. category_name r = category_name jq)
     [jq, jq_newer, entry 5 ''a'', entry 5 ''b'', entry 6 ''a'', entry 7 ''a'', entry 1 ''a'']
   = [jq, jq_newer]"
  by code_simp

theorem sort_keeps_ties_of_short_collections_witness:
  "length [jq, jq_newer, entry 5 ''a'', entry 5 ''b'', entry 6 ''a'', entry 7 ''a'',
      entry 1 ''a''] \<le> 12
   \<and> Sort (\<lambda>length n. 0)
       [jq, jq_newer, entry 5 ''a'', entry 5 ''b'', entry 6 ''a'', entry 7 ''a'', entry 1 ''a'']
     = Some [entry 1 ''a'', jq, jq_newer, entry 5 ''a'', entry 5 ''b'', entry 6 ''a'',
         entry 7 ''a'']
   \<and> sort_Sort
       [jq, jq_newer, entry 5 ''a'', entry 5 ''b'', entry 6 ''a'', entry 7 ''a'', entry 1 ''a'']
       [entry 1 ''a'', jq, jq_newer, entry 5 ''a'', entry 5 ''b'', entry 6 ''a'', entry 7 ''a'']
   \<and> filter (\<lambda>r. category_name r = category_name jq)
       [entry 1 ''a'', jq, jq_newer, entry 5 ''a'', entry 5 ''b'', entry 6 ''a'', entry 7 ''a'']
     = [jq, jq_newer]"
proof -
  let ?p = "[jq, jq_newer, entry 5 ''a'', entry 5 ''b'', entry 6 ''a'', entry 7 ''a'',
    entry 1 ''a'']"
  let ?q = "[entry 1 ''a'', jq, jq_newer, entry 5 ''a'', entry 5 ''b'', entry 6 ''a'',
    entry 7 ''a'']"
  have len: "length ?p \<le> 12" by simp
  with sort_keeps_ties_of_short_collections
    [where pick = "\<lambda>length n. 0" and p = ?p]
  obtain q where q: "Sort (\<lambda>length n. 0) ?p = Some q" "sort_Sort ?p q"
    "\<forall>k. filter (\<lambda>r. category_name r = k) q = filter (\<lambda>r. category_name r = k) ?p"
    by blast
  from q(1) seven_Sort have "q = ?q" by simp
  with q(2) have s: "sort_Sort ?p ?q" by simp
  from q(3) \<open>q = ?q\<close>
  have "filter (\<lambda>r. category_name r = category_name jq) ?q
      = filter (\<lambda>r. category_name r = category_name jq) ?p"
    by blast
  with seven_ties have "filter (\<lambda>r. category_name r = category_name jq) ?q = [jq, jq_newer]"
    by simp
  with len seven_Sort s show ?thesis by blast
qed

text \<open>
  C5 as stated fails on thirteen records.  \<open>entry 5 ''a''\<close> arrives before \<open>entry 5 ''b''\<close>
  and the two share category and name.  The pivot is the record at index 6, which is
  \<open>entry 5 ''b''\<close>; \<open>partition\<close> puts it at index 0, exchanges the records at 1 and 12, which
  takes \<open>entry 5 ''a''\<close> to the end, and puts the pivot back at index 6; the two parts
  are sorted by insertion, and \<open>entry 5 ''a''\<close> comes out after \<open>entry 5 ''b''\<close>.
  \<open>breakPatterns\<close> is not called in this run.
\<close>

theorem sort_exchanges_ties_counterexample:
  "(\<forall>pick. Sort pick
       [entry 1 ''a'', entry 5 ''a'', entry 2 ''a'', entry 3 ''a'', entry 4 ''a'',
        entry 4 ''b'', entry 5 ''b'', entry 6 ''a'', entry 7 ''a'', entry 8 ''a'',
        entry 9 ''a'', entry 10 ''a'', entry 0 ''a'']
     = Some
       [entry 0 ''a'', entry 1 ''a'', entry 2 ''a'', entry 3 ''a'', entry 4 ''a'',
        entry 4 ''b'', entry 5 ''b'', entry 5 ''a'', entry 6 ''a'', entry 7 ''a'',
        entry 8 ''a'', entry 9 ''a'', entry 10 ''a''])
   \<and> filter (\<lambda>r. category_name r = category_name (entry 5 ''a''))
       [entry 1 ''a'', entry 5 ''a'', entry 2 ''a'', entry 3 ''a'', entry 4 ''a'',
        entry 4 ''b'', entry 5 ''b'', entry 6 ''a'', entry 7 ''a'', entry 8 ''a'',
        entry 9 ''a'', entry 10 ''a'', entry 0 ''a'']
     = [entry 5 ''a'', entry 5 ''b'']
   \<and> filter (\<lambda>r. category_name r = category_name (entry 5 ''a''))
       [entry 0 ''a'', entry 1 ''a'', entry 2 ''a'', entry 3 ''a'', entry 4 ''a'',
        entry 4 ''b'', entry 5 ''b'', entry 5 ''a'', entry 6 ''a'', entry 7 ''a'',
        entry 8 ''a'', entry 9 ''a'', entry 10 ''a'']
     = [entry 5 ''b'', entry 5 ''a'']
   \<and> entry 5 ''a'' \<noteq> entry 5 ''b''"
proof -
  have "Sort pick
       [entry 1 ''a'', entry 5 ''a'', entry 2 ''a'', entry 3 ''a'', entry 4 ''a'',
        entry 4 ''b'', entry 5 ''b'', entry 6 ''a'', entry 7 ''a'', entry 8 ''a'',
        entry 9 ''a'', entry 10 ''a'', entry 0 ''a'']
     = Some
       [entry 0 ''a'', entry 1 ''a'', entry 2 ''a'', entry 3 ''a'', entry 4 ''a'',
        entry 4 ''b'', entry 5 ''b'', entry 5 ''a'', entry 6 ''a'', entry 7 ''a'',
        entry 8 ''a'', entry 9 ''a'', entry 10 ''a'']" for pick
    by code_simp
  moreover have
    "filter (\<lambda>r. category_name r = category_name (entry 5 ''a''))
       [entry 1 ''a'', entry 5 ''a'', entry 2 ''a'', entry 3 ''a'', entry 4 ''a'',
        entry 4 ''b'', entry 5 ''b'', entry 6 ''a'', entry 7 ''a'', entry 8 ''a'',
        entry 9 ''a'', entry 10 ''a'', entry 0 ''a'']
     = [entry 5 ''a'', entry 5 ''b'']"
    by code_simp
  moreover have
    "filter (\<lambda>r. category_name r = category_name (entry 5 ''a''))
       [entry 0 ''a'', entry 1 ''a'', entry 2 ''a'', entry 3 ''a'', entry 4 ''a'',
        entry 4 ''b'', entry 5 ''b'', entry 5 ''a'', entry 6 ''a'', entry 7 ''a'',
        entry 8 ''a'', entry 9 ''a'', entry 10 ''a'']
     = [entry 5 ''b'', entry 5 ''a'']"
    by code_simp
  moreover have "entry 5 ''a'' \<noteq> entry 5 ''b''"
    by code_simp
  ultimately show ?thesis by blast
qed

text \<open>
  The result of the thirteen records is sorted, with two pairs of records that share
  category and name, and the sort returns it as it is; the README's four records are
  sorted by a first application and left by a second.
\<close>

lemma thirteen_IsSorted:
  "IsSorted
     [entry 0 ''a'', entry 1 ''a'', entry 2 ''a'', entry 3 ''a'', entry 4 ''a'',
      entry 4 ''b'', entry 5 ''b'', entry 5 ''a'', entry 6 ''a'', entry 7 ''a'',
      entry 8 ''a'', entry 9 ''a'', entry 10 ''a'']"
  by code_simp

lemma example_Sort:
  "Sort (\<lambda>length n. 0) [yaourt, jq, chruby, chruby_git] = Some [chruby_git, jq, chruby, yaourt]"
  by code_simp

theorem sort_leaves_sorted_unchanged_witness:
  "IsSorted
     [entry 0 ''a'', entry 1 ''a'', entry 2 ''a'', entry 3 ''a'', entry 4 ''a'',
      entry 4 ''b'', entry 5 ''b'', entry 5 ''a'', entry 6 ''a'', entry 7 ''a'',
      entry 8 ''a'', entry 9 ''a'', entry 10 ''a'']
   \<and> Sort (\<lambda>length n. 0)
       [entry 0 ''a'', entry 1 ''a'', entry 2 ''a'', entry 3 ''a'', entry 4 ''a'',
        entry 4 ''b'', entry 5 ''b'', entry 5 ''a'', entry 6 ''a'', entry 7 ''a'',
        entry 8 ''a'', entry 9 ''a'', entry 10 ''a'']
     = Some
       [entry 0 ''a'', entry 1 ''a'', entry 2 ''a'', entry 3 ''a'', entry 4 ''a'',
        entry 4 ''b'', entry 5 ''b'', entry 5 ''a'', entry 6 ''a'', entry 7 ''a'',
        entry 8 ''a'', entry 9 ''a'', entry 10 ''a'']
   \<and> sort_Sort [yaourt, jq, chruby, chruby_git] [chruby_git, jq, chruby, yaourt]
   \<and> length [yaourt, jq, chruby, chruby_git] \<le> 12
   \<and> Sort (\<lambda>length n. 0) [yaourt, jq, chruby, chruby_git] = Some [chruby_git, jq, chruby, yaourt]
   \<and> Sort (\<lambda>length n. 0) [chruby_git, jq, chruby, yaourt] = Some [chruby_git, jq, chruby, yaourt]"
proof -
  let ?t = "[entry 0 ''a'', entry 1 ''a'', entry 2 ''a'', entry 3 ''a'', entry 4 ''a'',
      entry 4 ''b'', entry 5 ''b'', entry 5 ''a'', entry 6 ''a'', entry 7 ''a'',
      entry 8 ''a'', entry 9 ''a'', entry 10 ''a'']"
  note long = sort_leaves_sorted_unchanged
    [where pick = "\<lambda>length n. 0" and p = ?t and q = ?t]
  note short = sort_leaves_sorted_unchanged
    [where pick = "\<lambda>length n. 0" and p = "[yaourt, jq, chruby, chruby_git]"
      and q = "[chruby_git, jq, chruby, yaourt]"]
  from long thirteen_IsSorted have "Sort (\<lambda>length n. 0) ?t = Some ?t" by blast
  moreover from short example_sort_Sort
  have "Sort (\<lambda>length n. 0) [chruby_git, jq, chruby, yaourt] = Some [chruby_git, jq, chruby, yaourt]"
    by blast
  moreover have "length [yaourt, jq, chruby, chruby_git] \<le> 12" by simp
  ultimately show ?thesis
    using thirteen_IsSorted example_sort_Sort example_Sort by blast
qed

section \<open>Properties of the timestamp decoder\<close>

lemma digit_val_range:
  assumes "is_digit c"
  shows "0 \<le> digit_val c \<and> digit_val c \<le> 9"
proof -
  from assms have "(48::nat) \<le> of_char c" and "of_char c \<le> (57::nat)"
    by (simp_all add: is_digit_def less_eq_char_def)
  moreover have "digit_val c = int (of_char c) - 48"
    by (simp add: digit_val_def of_nat_of_char)
  ultimately show ?thesis by linarith
qed

lemma digits_grow:
  assumes "list_all is_digit cs" and "0 \<le> n"
  shows "n \<le> foldl (\<lambda>n c. n * 10 + digit_val c) n cs"
  using assms
proof (induction cs arbitrary: n)
  case Nil
  show ?case by simp
next
  case (Cons c cs)
  from Cons.prems have d: "0 \<le> digit_val c" and rest: "list_all is_digit cs"
    using digit_val_range [of c] by simp_all
  from d Cons.prems(2) have "n \<le> n * 10 + digit_val c" by simp
  moreover from d Cons.prems(2) have "0 \<le> n * 10 + digit_val c" by simp
  then have "n * 10 + digit_val c \<le> foldl (\<lambda>n c. n * 10 + digit_val c) (n * 10 + digit_val c) cs"
    using Cons.IH [OF rest] by simp
  ultimately show ?case by simp
qed

lemma ParseUint_loop_digits:
  assumes "list_all is_digit cs" and "0 \<le> n" and "n \<le> maxUint64"
  shows "ParseUint_loop n cs =
           (if foldl (\<lambda>n c. n * 10 + digit_val c) n cs \<le> maxUint64
            then Inr (foldl (\<lambda>n c. n * 10 + digit_val c) n cs) else Inl ErrRange)"
  using assms
proof (induction cs arbitrary: n)
  case Nil
  then show ?case by simp
next
  case (Cons c cs)
  let ?n1 = "n * 10 + digit_val c"
  from Cons.prems have c: "is_digit c" and rest: "list_all is_digit cs"
    by simp_all
  from digit_val_range [OF c] Cons.prems(2) have n1: "0 \<le> ?n1" by simp
  from digits_grow [OF rest n1]
  have grow: "?n1 \<le> foldl (\<lambda>n c. n * 10 + digit_val c) ?n1 cs" .
  show ?case
  proof (cases "n \<ge> maxUint64 div 10 + 1")
    case True
    with digit_val_range [OF c] have "?n1 > maxUint64"
      by (simp add: maxUint64_def)
    with grow True c show ?thesis by simp
  next
    case False
    show ?thesis
    proof (cases "?n1 > maxUint64")
      case True
      with grow False c show ?thesis by (simp add: Let_def)
    next
      case fits: False
      then have "?n1 \<le> maxUint64" by simp
      with False fits c Cons.IH [OF rest n1] show ?thesis by (simp add: Let_def)
    qed
  qed
qed

lemma ParseUint_loop_not_digits:
  assumes "\<not> list_all is_digit cs"
  shows "\<exists>err. ParseUint_loop n cs = Inl err"
  using assms
  by (induction cs arbitrary: n) (auto simp: Let_def)

lemma decimal_nonneg:
  assumes "list_all is_digit s"
  shows "0 \<le> decimal s"
  using digits_grow [OF assms, of 0] by (simp add: decimal_def)

lemma ParseUint_iff:
  "ParseUint s = Inr m \<longleftrightarrow> unsigned_token s \<and> decimal s \<le> maxUint64 \<and> m = decimal s"
proof (cases "s \<noteq> [] \<and> list_all is_digit s")
  case True
  then show ?thesis
    using ParseUint_loop_digits [of s 0]
    by (auto simp: ParseUint_def unsigned_token_def decimal_def maxUint64_def)
next
  case False
  then show ?thesis
    using ParseUint_loop_not_digits [of s 0]
    by (auto simp: ParseUint_def unsigned_token_def)
qed

lemma ParseInt_after_sign:
  "(case ParseUint s' of
      Inl ErrSyntax \<Rightarrow> Inl ErrSyntax
    | Inl err \<Rightarrow> Inl ErrRange
    | Inr un \<Rightarrow>
        if \<not> neg \<and> un \<ge> 2 ^ (intSize - 1) then Inl ErrRange
        else if neg \<and> un > 2 ^ (intSize - 1) then Inl ErrRange
        else Inr (if neg then - un else un)) = Inr v
   \<longleftrightarrow> unsigned_token s'
       \<and> v = (if neg then - decimal s' else decimal s')
       \<and> - (2 ^ 63) \<le> v \<and> v < 2 ^ 63"
proof (cases "ParseUint s'")
  case (Inl err)
  with ParseUint_iff [of s'] have no: "\<not> (unsigned_token s' \<and> decimal s' \<le> maxUint64)"
    by auto
  have "\<not> (unsigned_token s' \<and> - (2 ^ 63) \<le> (if neg then - decimal s' else decimal s')
            \<and> (if neg then - decimal s' else decimal s') < 2 ^ 63)"
    using no by (auto simp: maxUint64_def)
  with Inl show ?thesis
    by (auto split: error.splits)
next
  case (Inr un)
  with ParseUint_iff [of s' un] have t: "unsigned_token s'" and un: "un = decimal s'"
    by simp_all
  from t have "0 \<le> decimal s'"
    by (simp add: unsigned_token_def decimal_nonneg)
  with Inr t un show ?thesis
    by (auto simp: intSize_def)
qed

lemma ParseInt_iff:
  "ParseInt s = Inr v \<longleftrightarrow>
     integer_token s \<and> v = token_value s \<and> - (2 ^ 63) \<le> v \<and> v < 2 ^ 63"
proof (cases s)
  case Nil
  then show ?thesis
    by (simp add: ParseInt_def integer_token_def)
next
  case (Cons c cs)
  show ?thesis
  proof (cases "c = CHR ''-''")
    case True
    with Cons ParseInt_after_sign [where s' = cs and neg = True and v = v] show ?thesis
      by (simp add: ParseInt_def integer_token_def token_value_def Let_def)
  next
    case False
    show ?thesis
    proof (cases "c = CHR ''+''")
      case True
      with Cons ParseInt_after_sign [where s' = cs and neg = False and v = v] show ?thesis
        by (simp add: ParseInt_def integer_token_def token_value_def Let_def)
    next
      case plain: False
      with False Cons ParseInt_after_sign [where s' = s and neg = False and v = v] show ?thesis
        by (simp add: ParseInt_def integer_token_def token_value_def Let_def)
    qed
  qed
qed

lemma UnmarshalJSON_example:
  "UnmarshalJSON t ''1350939768'' = (\<lparr>unixSec = 1350939768, unixNsec = 0\<rparr>, None)"
proof -
  have "Atoi ''1350939768'' = Inr 1350939768" by code_simp
  then show ?thesis by (simp add: UnmarshalJSON_def time_Unix_def)
qed

lemma calendar_example: "unix_of_utc 2012 10 22 21 2 48 = 1350939768"
  by code_simp

lemma UnmarshalJSON_rejects_text:
  "UnmarshalJSON t ''2012-10-22T21:02:48Z'' = (t, Some ErrSyntax)"
  "UnmarshalJSON t (CHR 0x22 # ''2012-10-22T21:02:48Z'' @ [CHR 0x22]) = (t, Some ErrSyntax)"
proof -
  have "Atoi ''2012-10-22T21:02:48Z'' = Inl ErrSyntax" by code_simp
  then show "UnmarshalJSON t ''2012-10-22T21:02:48Z'' = (t, Some ErrSyntax)"
    by (simp add: UnmarshalJSON_def)
  have "Atoi (CHR 0x22 # ''2012-10-22T21:02:48Z'' @ [CHR 0x22]) = Inl ErrSyntax" by code_simp
  then show "UnmarshalJSON t (CHR 0x22 # ''2012-10-22T21:02:48Z'' @ [CHR 0x22]) = (t, Some ErrSyntax)"
    by (simp add: UnmarshalJSON_def)
qed

text \<open>
  C7 (as amended): the timestamp decoder succeeds exactly on an optional sign followed
  by one or more decimal digits whose value lies between \<open>-2^63\<close> and \<open>2^63 - 1\<close>, the range
  of \<open>int\<close>; the timestamp is then that many seconds since the Unix epoch, and on a
  failure the receiver is left as it was.  Decoding \<open>1350939768\<close> yields
  2012-10-22T21:02:48Z, and the ISO-8601 text of that date is rejected, with or without
  the quotes of a JSON string.
\<close>

theorem UnmarshalJSON_accepts_integers_in_range:
  "(snd (UnmarshalJSON t str) = None
      \<longleftrightarrow> integer_token str \<and> - (2 ^ 63) \<le> token_value str \<and> token_value str < 2 ^ 63)
   \<and> (snd (UnmarshalJSON t str) = None
      \<longrightarrow> fst (UnmarshalJSON t str) = \<lparr>unixSec = token_value str, unixNsec = 0\<rparr>)
   \<and> (snd (UnmarshalJSON t str) \<noteq> None \<longrightarrow> fst (UnmarshalJSON t str) = t)
   \<and> UnmarshalJSON t ''1350939768''
       = (\<lparr>unixSec = unix_of_utc 2012 10 22 21 2 48, unixNsec = 0\<rparr>, None)
   \<and> unix_of_utc 2012 10 22 21 2 48 = 1350939768
   \<and> UnmarshalJSON t ''2012-10-22T21:02:48Z'' = (t, Some ErrSyntax)
   \<and> UnmarshalJSON t (CHR 0x22 # ''2012-10-22T21:02:48Z'' @ [CHR 0x22]) = (t, Some ErrSyntax)"
proof -
  have a: "snd (UnmarshalJSON t str) = None
      \<longleftrightarrow> integer_token str \<and> - (2 ^ 63) \<le> token_value str \<and> token_value str < 2 ^ 63"
    using ParseInt_iff [of str]
    by (cases "ParseInt str") (auto simp: UnmarshalJSON_def Atoi_def)
  have b: "snd (UnmarshalJSON t str) = None
      \<longrightarrow> fst (UnmarshalJSON t str) = \<lparr>unixSec = token_value str, unixNsec = 0\<rparr>"
    using ParseInt_iff [of str]
    by (cases "ParseInt str") (auto simp: UnmarshalJSON_def Atoi_def time_Unix_def)
  have c: "snd (UnmarshalJSON t str) \<noteq> None \<longrightarrow> fst (UnmarshalJSON t str) = t"
    by (cases "ParseInt str") (auto simp: UnmarshalJSON_def Atoi_def)
  from a b c UnmarshalJSON_example [of t] calendar_example UnmarshalJSON_rejects_text [of t]
  show ?thesis by simp
qed

text \<open>A negative token that is decoded, and a number with a fraction that is not.\<close>

theorem UnmarshalJSON_accepts_integers_in_range_witness:
  "integer_token ''-1350939768''
   \<and> token_value ''-1350939768'' = - 1350939768
   \<and> UnmarshalJSON (time_Unix 0 0) ''-1350939768''
       = (\<lparr>unixSec = - 1350939768, unixNsec = 0\<rparr>, None)
   \<and> \<not> integer_token ''1350939768.5''
   \<and> UnmarshalJSON (time_Unix 7 0) ''1350939768.5'' = (time_Unix 7 0, Some ErrSyntax)"
proof -
  note decoder = UnmarshalJSON_accepts_integers_in_range [of "time_Unix 0 0" "''-1350939768''"]
  note other = UnmarshalJSON_accepts_integers_in_range [of "time_Unix 7 0" "''1350939768.5''"]
  have t: "integer_token ''-1350939768''" "token_value ''-1350939768'' = - 1350939768"
      "\<not> integer_token ''1350939768.5''"
    by code_simp+
  have e: "Atoi ''1350939768.5'' = Inl ErrSyntax" by code_simp
  from decoder t have s: "snd (UnmarshalJSON (time_Unix 0 0) ''-1350939768'') = None"
    by simp
  with decoder t
  have "fst (UnmarshalJSON (time_Unix 0 0) ''-1350939768'')
          = \<lparr>unixSec = - 1350939768, unixNsec = 0\<rparr>"
    by simp
  with s have "UnmarshalJSON (time_Unix 0 0) ''-1350939768''
       = (\<lparr>unixSec = - 1350939768, unixNsec = 0\<rparr>, None)"
    by (simp add: prod_eq_iff)
  moreover from other t have "snd (UnmarshalJSON (time_Unix 7 0) ''1350939768.5'') \<noteq> None"
    by blast
  with other have "fst (UnmarshalJSON (time_Unix 7 0) ''1350939768.5'') = time_Unix 7 0"
    by blast
  with e have "UnmarshalJSON (time_Unix 7 0) ''1350939768.5'' = (time_Unix 7 0, Some ErrSyntax)"
    by (simp add: UnmarshalJSON_def)
  ultimately show ?thesis using t by blast
qed

text \<open>
  C7 as stated fails on an integer token outside the range of \<open>int\<close>: \<open>2^63\<close> is a
  sequence of decimal digits and the decoder rejects it with a range error.
\<close>

theorem UnmarshalJSON_rejects_large_integer_counterexample:
  "integer_token ''9223372036854775808''
   \<and> UnmarshalJSON (time_Unix 0 0) ''9223372036854775808'' = (time_Unix 0 0, Some ErrRange)"
proof -
  have "integer_token ''9223372036854775808''" by code_simp
  moreover have "Atoi ''9223372036854775808'' = Inl ErrRange" by code_simp
  ultimately show ?thesis by (simp add: UnmarshalJSON_def)
qed

section \<open>Properties of the presentation\<close>

lemma length_categories: "length categories = 21"
  by (simp add: categories_def)

lemma category_in_table:
  assumes "0 \<le> c" and "c \<le> 20"
  shows "go_index categories c = Inr (categories ! nat c)"
  using assms by (simp add: go_index_def length_categories)

lemma category_outside_table:
  assumes "c < 0 \<or> 20 < c"
  shows "go_index categories c = Inl IndexOutOfRange"
  using assms by (auto simp: go_index_def length_categories)

lemma category_names:
  "map (go_index categories) [1..20] =
     map Inr [''none'', ''daemons'', ''devel'', ''editors'', ''emulators'', ''games'',
       ''gnome'', ''18n'', ''kde'', ''lib'', ''modules'', ''multimedia'', ''network'',
       ''office'', ''science'', ''system'', ''x11'', ''xfce'', ''kernels'', ''fonts'']"
  by code_simp

lemma category_zero: "go_index categories 0 = Inr []"
  by (simp add: go_index_def categories_def)

lemma sort_Sort_singleton:
  assumes "sort_Sort [p] q"
  shows "q = [p]"
  using assms by (simp add: sort_Sort_def)

lemma search_single:
  assumes "aurRequest rpc (''/rpc.php?type=search&arg='' @ QueryEscape a) = Inr response"
    and "Results response = [p]"
    and "search QueryEscape rpc [a] res"
  shows "res = (fst (search_entry p),
                case snd (search_entry p) of None \<Rightarrow> Done | Some panic \<Rightarrow> Panicked panic)"
  using assms(3)
proof (cases rule: search.cases)
  case usage
  then show ?thesis by simp
next
  case (request_failed err)
  with assms(1) show ?thesis by simp
next
  case (printed results q out r)
  from printed(2) assms(1) have "results = response" by simp
  with printed(3) assms(2) have "q = [p]" by (simp add: sort_Sort_singleton)
  with printed(1,4) show ?thesis
    by (cases "search_entry p") (auto split: option.splits)
qed

text \<open>
  C10: both renderings index the category table without a check.  For a record whose
  \<open>CategoryID\<close> is between 0 and 20 the lookup gives a name (the empty name for 0, the
  fixed names for 1 to 20) and neither rendering fails; for a record whose \<open>CategoryID\<close>
  is negative or greater than 20 the lookup panics with an index out of range before
  anything is written, and the \<open>search\<close> and \<open>info\<close> commands end in that panic, not in a
  returned error.
\<close>

theorem category_lookup_unchecked:
  "(0 \<le> CategoryID p \<and> CategoryID p \<le> 20
      \<longrightarrow> go_index categories (CategoryID p) = Inr (categories ! nat (CategoryID p))
        \<and> snd (search_entry p) = None \<and> snd (info_callback Format p) = None)
   \<and> go_index categories 0 = Inr []
   \<and> map (go_index categories) [1..20] =
       map Inr [''none'', ''daemons'', ''devel'', ''editors'', ''emulators'', ''games'',
         ''gnome'', ''18n'', ''kde'', ''lib'', ''modules'', ''multimedia'', ''network'',
         ''office'', ''science'', ''system'', ''x11'', ''xfce'', ''kernels'', ''fonts'']
   \<and> (CategoryID p < 0 \<or> 20 < CategoryID p
      \<longrightarrow> go_index categories (CategoryID p) = Inl IndexOutOfRange
        \<and> search_entry p = ([], Some IndexOutOfRange)
        \<and> search_print (p # ps) = ([], Some IndexOutOfRange)
        \<and> info_callback Format p = ([], Some IndexOutOfRange)
        \<and> (aurRequest rpc (''/rpc.php?type=search&arg='' @ QueryEscape a) = Inr response
             \<and> Results response = [p] \<and> search QueryEscape rpc [a] res
           \<longrightarrow> res = ([], Panicked IndexOutOfRange))
        \<and> (rpc (multiInfo_request QueryEscape [Name p]) = Inr response
             \<and> Results response = [p]
           \<longrightarrow> info QueryEscape rpc Format [Name p] = ([], Panicked IndexOutOfRange)))"
proof -
  have inside: "go_index categories (CategoryID p) = Inr (categories ! nat (CategoryID p))
        \<and> snd (search_entry p) = None \<and> snd (info_callback Format p) = None"
    if "0 \<le> CategoryID p \<and> CategoryID p \<le> 20"
    using that category_in_table [of "CategoryID p"]
    by (simp add: search_entry_def info_callback_def)
  have outside: "go_index categories (CategoryID p) = Inl IndexOutOfRange
        \<and> search_entry p = ([], Some IndexOutOfRange)
        \<and> search_print (p # ps) = ([], Some IndexOutOfRange)
        \<and> info_callback Format p = ([], Some IndexOutOfRange)
        \<and> (aurRequest rpc (''/rpc.php?type=search&arg='' @ QueryEscape a) = Inr response
             \<and> Results response = [p] \<and> search QueryEscape rpc [a] res
           \<longrightarrow> res = ([], Panicked IndexOutOfRange))
        \<and> (rpc (multiInfo_request QueryEscape [Name p]) = Inr response
             \<and> Results response = [p]
           \<longrightarrow> info QueryEscape rpc Format [Name p] = ([], Panicked IndexOutOfRange))"
    if out: "CategoryID p < 0 \<or> 20 < CategoryID p"
  proof -
    from category_outside_table [OF out]
    have g: "go_index categories (CategoryID p) = Inl IndexOutOfRange" .
    then have s: "search_entry p = ([], Some IndexOutOfRange)"
      by (simp add: search_entry_def)
    from g have i: "info_callback Format p = ([], Some IndexOutOfRange)"
      by (simp add: info_callback_def)
    from s have sp: "search_print (p # ps) = ([], Some IndexOutOfRange)"
      by simp
    have sr: "res = ([], Panicked IndexOutOfRange)"
      if "aurRequest rpc (''/rpc.php?type=search&arg='' @ QueryEscape a) = Inr response
             \<and> Results response = [p] \<and> search QueryEscape rpc [a] res"
      using search_single [of rpc QueryEscape a response p res] that s by simp
    have ir: "info QueryEscape rpc Format [Name p] = ([], Panicked IndexOutOfRange)"
      if "rpc (multiInfo_request QueryEscape [Name p]) = Inr response \<and> Results response = [p]"
      using that i by (simp add: info_def multiInfo_def aurRequest_def)
    from g s i sp sr ir show ?thesis by blast
  qed
  from inside outside category_zero category_names show ?thesis by blast
qed

text \<open>\<open>jq\<close> is in the category 4; \<open>stray\<close> is a record with the category 21.\<close>

theorem category_lookup_unchecked_witness:
  "go_index categories (CategoryID jq) = Inr ''editors''
   \<and> snd (search_entry jq) = None \<and> snd (info_callback seconds_text jq) = None
   \<and> CategoryID stray = 21
   \<and> search_entry stray = ([], Some IndexOutOfRange)
   \<and> search_print [stray, jq] = ([], Some IndexOutOfRange)
   \<and> info_callback seconds_text stray = ([], Some IndexOutOfRange)
   \<and> info id (answer [stray]) seconds_text [''stray''] = ([], Panicked IndexOutOfRange)"
proof -
  note inside = category_lookup_unchecked [where p = jq and Format = seconds_text
      and ps = "[]" and rpc = "answer [jq]" and QueryEscape = id and a = "''jq''"
      and response = "\<lparr>Type = ''multiinfo'', Count = 1, Results = [jq]\<rparr>"
      and res = "([], Done)"]
  note outside = category_lookup_unchecked [where p = stray and Format = seconds_text
      and ps = "[jq]" and rpc = "answer [stray]" and QueryEscape = id and a = "''stray''"
      and response = "\<lparr>Type = ''multiinfo'', Count = 1, Results = [stray]\<rparr>"
      and res = "([], Done)"]
  have c: "0 \<le> CategoryID jq \<and> CategoryID jq \<le> 20" "categories ! nat (CategoryID jq) = ''editors''"
      "CategoryID stray = 21" "Name stray = ''stray''"
    by (simp_all add: jq_def stray_def categories_def)
  have r: "answer [stray] (multiInfo_request id [''stray''])
             = Inr \<lparr>Type = ''multiinfo'', Count = 1, Results = [stray]\<rparr>"
    by (simp add: answer_def)
  from inside c have "go_index categories (CategoryID jq) = Inr ''editors''
      \<and> snd (search_entry jq) = None \<and> snd (info_callback seconds_text jq) = None"
    by simp
  moreover from outside c r have "search_entry stray = ([], Some IndexOutOfRange)
      \<and> search_print [stray, jq] = ([], Some IndexOutOfRange)
      \<and> info_callback seconds_text stray = ([], Some IndexOutOfRange)
      \<and> info id (answer [stray]) seconds_text [''stray''] = ([], Panicked IndexOutOfRange)"
    by simp
  ultimately show ?thesis using c by blast
qed

text \<open>
  C8 (as amended): for a record whose category is in the table, the \<open>info\<close> rendering
  writes the version line with the suffix \<open>[out of date]\<close> when \<open>OutOfDate\<close> is not 0 and
  without a suffix when it is 0; the \<open>search\<close> rendering writes the version after the red
  colour code when \<open>OutOfDate\<close> is not 0 and after the green one when it is 0, with no
  suffix in either case.
\<close>

theorem staleness_rendering:
  assumes "0 \<le> CategoryID p" and "CategoryID p \<le> 20"
  shows
    "(OutOfDate p \<noteq> 0 \<longrightarrow>
        info_callback Format p
          = (ESC # ''[1mCategory        : '' @ ESC # ''[0m'' @ categories ! nat (CategoryID p) @ [NL]
             @ ESC # ''[1mName            : '' @ ESC # ''[0m'' @ Name p @ [NL]
             @ ESC # ''[1mVersion         : '' @ ESC # ''[0m'' @ Version p @ '' [out of date]'' @ [NL]
             @ ESC # ''[1mDescription     : '' @ ESC # ''[0m'' @ Description p @ [NL]
             @ ESC # ''[1mURL             : '' @ ESC # ''[0m'' @ URL p @ [NL]
             @ ESC # ''[1mLicenses        : '' @ ESC # ''[0m'' @ License p @ [NL]
             @ ESC # ''[1mMaintainer      : '' @ ESC # ''[0m'' @ Maintainer p @ [NL]
             @ ESC # ''[1mFirst Submitted : '' @ ESC # ''[0m'' @ Format (FirstSubmitted p) @ [NL]
             @ ESC # ''[1mLast Modified   : '' @ ESC # ''[0m'' @ Format (LastModified p) @ [NL]
             @ ESC # ''[1mVotes           : '' @ ESC # ''[0m'' @ itoa (NumVotes p) @ [NL]
             @ [NL],
             None)
      \<and> search_entry p
          = (ESC # ''[1;35m'' @ ''aur/'' @ categories ! nat (CategoryID p) @ ''/''
             @ ESC # ''[1;37m'' @ Name p @ '' ''
             @ ESC # ''[1;31m'' @ Version p @ [NL]
             @ ''    '' @ ESC # ''[0m'' @ Description p @ [NL],
             None))
   \<and> (OutOfDate p = 0 \<longrightarrow>
        info_callback Format p
          = (ESC # ''[1mCategory        : '' @ ESC # ''[0m'' @ categories ! nat (CategoryID p) @ [NL]
             @ ESC # ''[1mName            : '' @ ESC # ''[0m'' @ Name p @ [NL]
             @ ESC # ''[1mVersion         : '' @ ESC # ''[0m'' @ Version p @ [NL]
             @ ESC # ''[1mDescription     : '' @ ESC # ''[0m'' @ Description p @ [NL]
             @ ESC # ''[1mURL             : '' @ ESC # ''[0m'' @ URL p @ [NL]
             @ ESC # ''[1mLicenses        : '' @ ESC # ''[0m'' @ License p @ [NL]
             @ ESC # ''[1mMaintainer      : '' @ ESC # ''[0m'' @ Maintainer p @ [NL]
             @ ESC # ''[1mFirst Submitted : '' @ ESC # ''[0m'' @ Format (FirstSubmitted p) @ [NL]
             @ ESC # ''[1mLast Modified   : '' @ ESC # ''[0m'' @ Format (LastModified p) @ [NL]
             @ ESC # ''[1mVotes           : '' @ ESC # ''[0m'' @ itoa (NumVotes p) @ [NL]
             @ [NL],
             None)
      \<and> search_entry p
          = (ESC # ''[1;35m'' @ ''aur/'' @ categories ! nat (CategoryID p) @ ''/''
             @ ESC # ''[1;37m'' @ Name p @ '' ''
             @ ESC # ''[1;32m'' @ Version p @ [NL]
             @ ''    '' @ ESC # ''[0m'' @ Description p @ [NL],
             None))"
  using category_in_table [OF assms]
  by (simp add: info_callback_def search_entry_def)

lemma itoa_examples: "itoa 2840 = ''2840''" "itoa 31 = ''31''"
  by code_simp+

lemma seconds_examples:
  "seconds_text (FirstSubmitted yaourt) = ''1152045478''"
  "seconds_text (LastModified yaourt) = ''1365197530''"
  by code_simp+

text \<open>The README's \<open>yaourt\<close>, flagged out of date, and \<open>jq\<close>, which is not.\<close>

theorem staleness_rendering_witness:
  "OutOfDate yaourt \<noteq> 0
   \<and> info_callback seconds_text yaourt
       = (ESC # ''[1mCategory        : '' @ ESC # ''[0msystem'' @ [NL]
          @ ESC # ''[1mName            : '' @ ESC # ''[0myaourt'' @ [NL]
          @ ESC # ''[1mVersion         : '' @ ESC # ''[0m1.3-1 [out of date]'' @ [NL]
          @ ESC # ''[1mDescription     : '' @ ESC
            # ''[0mA pacman wrapper with extended features and AUR support'' @ [NL]
          @ ESC # ''[1mURL             : '' @ ESC # ''[0mhttp://www.archlinux.fr/yaourt-en/'' @ [NL]
          @ ESC # ''[1mLicenses        : '' @ ESC # ''[0mGPL'' @ [NL]
          @ ESC # ''[1mMaintainer      : '' @ ESC # ''[0mtuxce'' @ [NL]
          @ ESC # ''[1mFirst Submitted : '' @ ESC # ''[0m1152045478'' @ [NL]
          @ ESC # ''[1mLast Modified   : '' @ ESC # ''[0m1365197530'' @ [NL]
          @ ESC # ''[1mVotes           : '' @ ESC # ''[0m2840'' @ [NL]
          @ [NL],
          None)
   \<and> search_entry yaourt
       = (ESC # ''[1;35maur/system/'' @ ESC # ''[1;37myaourt '' @ ESC # ''[1;31m1.3-1'' @ [NL]
          @ ''    '' @ ESC # ''[0mA pacman wrapper with extended features and AUR support''
          @ [NL],
          None)
   \<and> OutOfDate jq = 0
   \<and> search_entry jq
       = (ESC # ''[1;35maur/editors/'' @ ESC # ''[1;37mjq '' @ ESC # ''[1;32m1.3-2'' @ [NL]
          @ ''    '' @ ESC # ''[0mCommand-line JSON processor'' @ [NL],
          None)"
proof -
  have y: "0 \<le> CategoryID yaourt" "CategoryID yaourt \<le> 20" "OutOfDate yaourt \<noteq> 0"
      "categories ! nat (CategoryID yaourt) = ''system''"
    by (simp_all add: yaourt_def categories_def)
  have j: "0 \<le> CategoryID jq" "CategoryID jq \<le> 20" "OutOfDate jq = 0"
      "categories ! nat (CategoryID jq) = ''editors''"
    by (simp_all add: jq_def categories_def)
  have fy: "Name yaourt = ''yaourt''" "Version yaourt = ''1.3-1''"
      "Description yaourt = ''A pacman wrapper with extended features and AUR support''"
      "URL yaourt = ''http://www.archlinux.fr/yaourt-en/''" "License yaourt = ''GPL''"
      "Maintainer yaourt = ''tuxce''" "NumVotes yaourt = 2840"
    by (simp_all add: yaourt_def)
  have fj: "Name jq = ''jq''" "Version jq = ''1.3-2''"
      "Description jq = ''Command-line JSON processor''"
    by (simp_all add: jq_def)
  from staleness_rendering [OF y(1,2), of seconds_text] y(3,4)
  have "info_callback seconds_text yaourt
       = (ESC # ''[1mCategory        : '' @ ESC # ''[0msystem'' @ [NL]
          @ ESC # ''[1mName            : '' @ ESC # ''[0myaourt'' @ [NL]
          @ ESC # ''[1mVersion         : '' @ ESC # ''[0m1.3-1 [out of date]'' @ [NL]
          @ ESC # ''[1mDescription     : '' @ ESC
            # ''[0mA pacman wrapper with extended features and AUR support'' @ [NL]
          @ ESC # ''[1mURL             : '' @ ESC # ''[0mhttp://www.archlinux.fr/yaourt-en/'' @ [NL]
          @ ESC # ''[1mLicenses        : '' @ ESC # ''[0mGPL'' @ [NL]
          @ ESC # ''[1mMaintainer      : '' @ ESC # ''[0mtuxce'' @ [NL]
          @ ESC # ''[1mFirst Submitted : '' @ ESC # ''[0m1152045478'' @ [NL]
          @ ESC # ''[1mLast Modified   : '' @ ESC # ''[0m1365197530'' @ [NL]
          @ ESC # ''[1mVotes           : '' @ ESC # ''[0m2840'' @ [NL]
          @ [NL],
          None)
     \<and> search_entry yaourt
       = (ESC # ''[1;35maur/system/'' @ ESC # ''[1;37myaourt '' @ ESC # ''[1;31m1.3-1'' @ [NL]
          @ ''    '' @ ESC # ''[0mA pacman wrapper with extended features and AUR support''
          @ [NL],
          None)"
    by (simp add: fy itoa_examples seconds_examples)
  moreover from staleness_rendering [OF j(1,2), of seconds_text] j(3,4)
  have "search_entry jq
       = (ESC # ''[1;35maur/editors/'' @ ESC # ''[1;37mjq '' @ ESC # ''[1;32m1.3-2'' @ [NL]
          @ ''    '' @ ESC # ''[0mCommand-line JSON processor'' @ [NL],
          None)"
    by (simp add: fj)
  ultimately show ?thesis using y(3) j(3) by blast
qed

text \<open>
  C8 as stated fails on a record whose category is outside the table: \<open>stray\<close> is flagged
  out of date, and both renderings panic at the table lookup before any version is
  written.
\<close>

theorem staleness_not_rendered_counterexample:
  "OutOfDate stray \<noteq> 0
   \<and> info_callback seconds_text stray = ([], Some IndexOutOfRange)
   \<and> search_entry stray = ([], Some IndexOutOfRange)"
proof -
  have "CategoryID stray = 21" and "OutOfDate stray \<noteq> 0"
    by (simp_all add: stray_def jq_def)
  with category_outside_table [of "CategoryID stray"] show ?thesis
    by (simp add: info_callback_def search_entry_def)
qed

section \<open>Properties of the links built from a name\<close>

text \<open>
  C1: for a name of one byte the slice \<open>s[0:2]\<close> panics in \<open>tarball\<close> and in \<open>pkgbuild\<close>,
  before anything is written or fetched; for \<open>foo\<close> the path holds \<open>fo/foo/\<close>.
\<close>

theorem short_name_panics:
  "tarball [[c]] = ([], Panicked SliceBoundsOutOfRange)
   \<and> pkgbuild get [[c]] = ([], Panicked SliceBoundsOutOfRange)
   \<and> tarball [''foo''] = (''https://aur.archlinux.org/packages/fo/foo/foo.tar.gz'' @ [NL], Done)
   \<and> pkgbuild_url ''foo'' = Inr ''https://aur.archlinux.org/packages/fo/foo/PKGBUILD''"
  by (simp add: tarball_def tarball_line_def pkgbuild_def pkgbuild_url_def go_slice_def)

text \<open>The name \<open>a\<close>.\<close>

theorem short_name_panics_witness:
  "tarball [''a''] = ([], Panicked SliceBoundsOutOfRange)
   \<and> pkgbuild not_found_page [''a''] = ([], Panicked SliceBoundsOutOfRange)"
  using short_name_panics [of "CHR ''a''" not_found_page] by simp

end
